theory Spec2Isabelle
  imports Complex_Main
begin

section \<open>Data model\<close>

text \<open>
  An \<open>Individual\<close> lives on the heap and is reached through pointers. The heap of
  Individuals is a list; a pointer is an index into it (\<open>ref\<close>), and a pointer that may be
  \<open>nullptr\<close> is a \<open>ref option\<close>. The exceptions of the C++ (\<open>std::invalid_argument\<close>,
  \<open>Rcpp::stop\<close>) are values carrying their message. Reading through a pointer that is null
  or dangling, or indexing a \<open>std::vector\<close> out of range, is undefined in C++: the model
  stops there with \<open>undefined_behaviour\<close>. A \<open>double\<close> is a real number, and the uniform
  random source \<open>R::runif(0, 1)\<close> is a sequence of draws \<open>u\<close> read at a position that
  every draw advances by one.
\<close>

type_synonym ref = nat

datatype error =
    invalid_argument string
  | Rcpp_stop string
  | undefined_behaviour

record individual =
  m_pid :: int
  m_generation :: int
  m_father :: "ref option"
  m_children :: "ref list"
  m_pedigree_id :: int
  m_pedigree :: "nat option"
  m_haplotype :: "int list"
  m_haplotype_set :: bool
  m_haplotype_mutated :: bool
  m_dijkstra_visited :: bool
  m_dijkstra_distance :: int

text \<open>
  Modelled from the spec: the class declaration of \<open>Individual\<close> (its header) is not among
  the sources, so the initial values of the members the constructor does not assign follow
  the data model of the specification: no father, no pedigree (\<open>pedigree_id\<close> 0), no
  haplotype, scratch fields cleared.
\<close>

definition Individual :: "int \<Rightarrow> int \<Rightarrow> individual" where
  "Individual pid generation =
     \<lparr> m_pid = pid, m_generation = generation, m_father = None, m_children = [],
       m_pedigree_id = 0, m_pedigree = None, m_haplotype = [], m_haplotype_set = False,
       m_haplotype_mutated = False, m_dijkstra_visited = False, m_dijkstra_distance = 0 \<rparr>"

definition pedigree_is_set :: "individual \<Rightarrow> bool" where
  "pedigree_is_set x = (m_pedigree_id x \<noteq> 0)"

definition set_haplotype :: "int list \<Rightarrow> individual \<Rightarrow> individual" where
  "set_haplotype h x = x\<lparr> m_haplotype := h, m_haplotype_set := True \<rparr>"

section \<open>Stepwise mutation of a haplotype\<close>

text \<open>
  The loop of \<open>Individual::haplotype_mutate\<close> over the loci \<open>loc\<close>, from \<open>loc\<close> on. It
  returns the haplotype and the position of the random source after the loop. The caller
  has checked that there are as many mutation rates as loci. An allele is a C++ \<open>int\<close>: a
  step below its least or above its greatest value overflows, which is undefined behaviour.
\<close>

function haplotype_mutate_loop ::
  "(nat \<Rightarrow> real) \<Rightarrow> real list \<Rightarrow> nat \<Rightarrow> int list \<Rightarrow> nat \<Rightarrow> error + int list \<times> nat" where
  "haplotype_mutate_loop u mutation_rates loc h k =
     (if loc < length h then
        (if u k < mutation_rates ! loc then
           (if u (k + 1) < 0.5 then
              (if h ! loc = - 2147483648 then Inl undefined_behaviour
               else haplotype_mutate_loop u mutation_rates (loc + 1)
                      (h[loc := h ! loc - 1]) (k + 2))
            else
              (if h ! loc = 2147483647 then Inl undefined_behaviour
               else haplotype_mutate_loop u mutation_rates (loc + 1)
                      (h[loc := h ! loc + 1]) (k + 2)))
         else haplotype_mutate_loop u mutation_rates (loc + 1) h (k + 1))
      else Inr (h, k))"
  by pat_completeness auto
termination
  by (relation "measure (\<lambda>(u, mutation_rates, loc, h, k). length h - loc)") auto

declare haplotype_mutate_loop.simps [simp del]

definition haplotype_mutate ::
  "(nat \<Rightarrow> real) \<Rightarrow> nat \<Rightarrow> real list \<Rightarrow> individual \<Rightarrow> error + individual \<times> nat" where
  "haplotype_mutate u k mutation_rates x =
     (if \<not> m_haplotype_set x then
        Inl (invalid_argument ''Father haplotype not set yet, so cannot mutate'')
      else if length (m_haplotype x) \<noteq> length mutation_rates then
        Inl (invalid_argument
          ''Number of loci specified in haplotype must equal number of mutation rates specified'')
      else if m_haplotype_mutated x then
        Inl (invalid_argument ''Father haplotype already set and mutated'')
      else
        (case haplotype_mutate_loop u mutation_rates 0 (m_haplotype x) k of
           Inl e \<Rightarrow> Inl e
         | Inr (h, k') \<Rightarrow> Inr (x\<lparr> m_haplotype := h \<rparr>, k')))"

text \<open>
  The loop of \<open>Individual::haplotype_mutate_ladder_bounded\<close>. The ladder vectors are read
  at \<open>loc\<close> without a check of their sizes, only when a mutation happens. As above, a
  step that leaves the range of \<open>int\<close> is undefined behaviour.
\<close>

function haplotype_mutate_ladder_bounded_loop ::
  "(nat \<Rightarrow> real) \<Rightarrow> real list \<Rightarrow> int list \<Rightarrow> int list \<Rightarrow> nat \<Rightarrow> int list \<Rightarrow> nat
     \<Rightarrow> error + int list \<times> nat" where
  "haplotype_mutate_ladder_bounded_loop u mutation_rates ladder_min ladder_max loc h k =
     (if loc < length h then
        (if u k < mutation_rates ! loc then
           (if \<not> loc < length ladder_min then Inl undefined_behaviour
            else if h ! loc < ladder_min ! loc then
              Inl (invalid_argument ''Haplotype locus lower than ladder minimum'')
            else if \<not> loc < length ladder_max then Inl undefined_behaviour
            else if h ! loc > ladder_max ! loc then
              Inl (invalid_argument ''Haplotype locus higher than ladder minimum'')
            else if h ! loc = ladder_min ! loc then
              (if ladder_min ! loc = 2147483647 then Inl undefined_behaviour
               else haplotype_mutate_ladder_bounded_loop u mutation_rates ladder_min ladder_max
                      (loc + 1) (h[loc := ladder_min ! loc + 1]) (k + 1))
            else if h ! loc = ladder_max ! loc then
              (if ladder_max ! loc = - 2147483648 then Inl undefined_behaviour
               else haplotype_mutate_ladder_bounded_loop u mutation_rates ladder_min ladder_max
                      (loc + 1) (h[loc := ladder_max ! loc - 1]) (k + 1))
            else if u (k + 1) < 0.5 then
              (if h ! loc = - 2147483648 then Inl undefined_behaviour
               else haplotype_mutate_ladder_bounded_loop u mutation_rates ladder_min ladder_max
                      (loc + 1) (h[loc := h ! loc - 1]) (k + 2))
            else
              (if h ! loc = 2147483647 then Inl undefined_behaviour
               else haplotype_mutate_ladder_bounded_loop u mutation_rates ladder_min ladder_max
                      (loc + 1) (h[loc := h ! loc + 1]) (k + 2)))
         else
           haplotype_mutate_ladder_bounded_loop u mutation_rates ladder_min ladder_max
             (loc + 1) h (k + 1))
      else Inr (h, k))"
  by pat_completeness auto
termination
  by (relation
      "measure (\<lambda>(u, mutation_rates, ladder_min, ladder_max, loc, h, k). length h - loc)")
    auto

declare haplotype_mutate_ladder_bounded_loop.simps [simp del]

definition haplotype_mutate_ladder_bounded ::
  "(nat \<Rightarrow> real) \<Rightarrow> nat \<Rightarrow> real list \<Rightarrow> int list \<Rightarrow> int list \<Rightarrow> individual
     \<Rightarrow> error + individual \<times> nat" where
  "haplotype_mutate_ladder_bounded u k mutation_rates ladder_min ladder_max x =
     (if \<not> m_haplotype_set x then
        Inl (invalid_argument ''Father haplotype not set yet, so cannot mutate'')
      else if length (m_haplotype x) \<noteq> length mutation_rates then
        Inl (invalid_argument
          ''Number of loci specified in haplotype must equal number of mutation rates specified'')
      else if m_haplotype_mutated x then
        Inl (invalid_argument ''Father haplotype already set and mutated'')
      else
        (case haplotype_mutate_ladder_bounded_loop u mutation_rates ladder_min ladder_max 0
                (m_haplotype x) k of
           Inl e \<Rightarrow> Inl e
         | Inr (h, k') \<Rightarrow> Inr (x\<lparr> m_haplotype := h \<rparr>, k')))"

section \<open>Genotype probabilities with theta\<close>

text \<open>
  \<open>calc_autosomal_genotype_probs\<close>: the two range checks, the normalisation of the allele
  distribution by its sum, and the two nested loops that fill the lower triangle
  (\<open>j \<le> i\<close>) row by row. The \<open>double\<close>s are real numbers here, so the result is what
  the C++ computes up to rounding; and for a distribution of zeros only, where the C++
  divides zero by zero and fills the vector with NaN, the division gives 0.
\<close>

definition genotype_prob :: "real \<Rightarrow> real list \<Rightarrow> nat \<Rightarrow> nat \<Rightarrow> real" where
  "genotype_prob theta ps i j =
     (if i = j then theta * ps ! i + (1 - theta) * ps ! i * ps ! i
      else (1 - theta) * 2 * ps ! i * ps ! j)"

fun genotype_row :: "real \<Rightarrow> real list \<Rightarrow> nat \<Rightarrow> nat list \<Rightarrow> real list" where
  "genotype_row theta ps i [] = []"
| "genotype_row theta ps i (j # js) = genotype_prob theta ps i j # genotype_row theta ps i js"

fun genotype_rows :: "real \<Rightarrow> real list \<Rightarrow> nat list \<Rightarrow> real list" where
  "genotype_rows theta ps [] = []"
| "genotype_rows theta ps (i # is) =
     genotype_row theta ps i [0..<Suc i] @ genotype_rows theta ps is"

definition calc_autosomal_genotype_probs :: "real list \<Rightarrow> real \<Rightarrow> error + real list" where
  "calc_autosomal_genotype_probs allele_dist theta =
     (if (\<exists>p \<in> set allele_dist. p < 0) \<or> (\<exists>p \<in> set allele_dist. p > 1) then
        Inl (Rcpp_stop ''allele_dist's elements must be between 0 and 1, both included'')
      else if theta < 0 \<or> theta > 1 then
        Inl (Rcpp_stop ''theta must be between 0 and 1, both included'')
      else
        (let ps_sum = sum_list allele_dist;
             ps = map (\<lambda>p. p / ps_sum) allele_dist
         in Inr (genotype_rows theta ps [0..<length ps])))"

section \<open>Autosomal propagation to the children\<close>

definition possible_mutate_index ::
  "(nat \<Rightarrow> real) \<Rightarrow> nat \<Rightarrow> int \<Rightarrow> real \<Rightarrow> int \<Rightarrow> error + int \<times> nat" where
  "possible_mutate_index u k index mutation_rate max' =
     (if max' \<le> 0 then Inl (invalid_argument ''max must be >= 1'')
      else if u k \<ge> mutation_rate then Inr (index, k + 1)
      else if index = 0 then Inr (1, k + 1)
      else if index = max' then Inr (max' - 1, k + 1)
      else if u (k + 1) < 0.5 then Inr (index - 1, k + 2)
      else Inr (index + 1, k + 2))"

text \<open>
  The search for the mother's allele in the conditional cumulative distribution: the loop
  from \<open>i\<close> on, which leaves \<open>mother_allele\<close> at 0 when no entry reaches \<open>u\<close>.
\<close>

function mother_allele_loop :: "real \<Rightarrow> real list \<Rightarrow> nat \<Rightarrow> int" where
  "mother_allele_loop u cumdist i =
     (if i < length cumdist then
        (if u \<le> cumdist ! i then int i else mother_allele_loop u cumdist (i + 1))
      else 0)"
  by pat_completeness auto
termination
  by (relation "measure (\<lambda>(u, cumdist, i). length cumdist - i)") auto

declare mother_allele_loop.simps [simp del]

text \<open>
  The body of the loop of \<open>Individual::pass_autosomal_to_children\<close> for one child, up to
  the genotype that the child receives: the father's stored genotype \<open>geno_father\<close>, the
  uniform choice of the father's allele, the draw of the mother's allele, the two possible
  mutations and the final ordering.
\<close>

definition autosomal_child_genotype ::
  "(nat \<Rightarrow> real) \<Rightarrow> nat \<Rightarrow> int list \<Rightarrow> real list list \<Rightarrow> real \<Rightarrow> error + int list \<times> nat" where
  "autosomal_child_genotype u k geno_father allele_conditional_cumdists_theta mutation_rate =
     (if \<not> (if u k < 0.5 then 0 else 1) < length geno_father then Inl undefined_behaviour
      else
        (let father_allele = (if u k < 0.5 then geno_father ! 0 else geno_father ! 1) in
         if father_allele < 0
            \<or> \<not> nat father_allele < length allele_conditional_cumdists_theta
         then Inl undefined_behaviour
         else
           (let cumdist = allele_conditional_cumdists_theta ! nat father_allele;
                u1 = u (k + 1);
                alleles_count = int (length cumdist)
            in if cumdist = [] then Inl undefined_behaviour
               else
                 (let mother_allele =
                        (if u1 > cumdist ! 0 then mother_allele_loop u1 cumdist 1 else 0);
                      max' = alleles_count - 1
                  in case possible_mutate_index u (k + 2) father_allele mutation_rate max' of
                       Inl e \<Rightarrow> Inl e
                     | Inr (g0, k0) \<Rightarrow>
                         (case possible_mutate_index u k0 mother_allele mutation_rate max' of
                            Inl e \<Rightarrow> Inl e
                          | Inr (g1, k1) \<Rightarrow>
                              Inr (if g1 \<le> g0 then [g1, g0] else [g0, g1], k1))))))"

text \<open>
  \<open>Individual::pass_autosomal_to_children\<close> on the Individual at \<open>this\<close>, and its loop
  over the children still to serve. The recursion follows the child pointers, so it carries
  fuel: the first argument bounds the depth of the calls, and \<open>None\<close> says that it ran out.
\<close>

fun pass_autosomal_to_children ::
  "nat \<Rightarrow> bool \<Rightarrow> real list list \<Rightarrow> real \<Rightarrow> (nat \<Rightarrow> real) \<Rightarrow> individual list \<Rightarrow> ref \<Rightarrow> nat
     \<Rightarrow> (error + individual list \<times> nat) option"
and pass_autosomal_children_loop ::
  "nat \<Rightarrow> bool \<Rightarrow> real list list \<Rightarrow> real \<Rightarrow> (nat \<Rightarrow> real) \<Rightarrow> individual list \<Rightarrow> ref \<Rightarrow> ref list
     \<Rightarrow> nat \<Rightarrow> (error + individual list \<times> nat) option"
where
  "pass_autosomal_to_children 0 recursive cumdists mutation_rate u st this k = None"
| "pass_autosomal_to_children (Suc n) recursive cumdists mutation_rate u st this k =
     (if this < length st then
        pass_autosomal_children_loop n recursive cumdists mutation_rate u st this
          (m_children (st ! this)) k
      else Some (Inl undefined_behaviour))"
| "pass_autosomal_children_loop n recursive cumdists mutation_rate u st this [] k =
     Some (Inr (st, k))"
| "pass_autosomal_children_loop n recursive cumdists mutation_rate u st this (child # children) k =
     (case autosomal_child_genotype u k (m_haplotype (st ! this)) cumdists mutation_rate of
        Inl e \<Rightarrow> Some (Inl e)
      | Inr (geno, k') \<Rightarrow>
          if \<not> child < length st then Some (Inl undefined_behaviour)
          else if recursive then
            (case pass_autosomal_to_children n recursive cumdists mutation_rate u
                    (st[child := set_haplotype geno (st ! child)]) child k' of
               None \<Rightarrow> None
             | Some (Inl e) \<Rightarrow> Some (Inl e)
             | Some (Inr (st', k'')) \<Rightarrow>
                 pass_autosomal_children_loop n recursive cumdists mutation_rate u st' this
                   children k'')
          else
            pass_autosomal_children_loop n recursive cumdists mutation_rate u
              (st[child := set_haplotype geno (st ! child)]) this children k')"

section \<open>Pedigrees and the path through the lowest common ancestor\<close>

text \<open>
  Modelled from the spec: the class \<open>Pedigree\<close> is not among the sources. Of a pedigree the
  functions below read the member list (\<open>get_all_individuals\<close>) and the root
  (\<open>get_root\<close>), which the specification describes as the sequence of member references
  and the member with no father. An Individual points to its pedigree by the index of the
  pedigree in a table.
\<close>

record pedigree =
  all_individuals :: "ref list"
  root :: "ref option"

text \<open>
  The loop of \<open>Individual::calculate_path_to\<close> that finds the first index at which the two
  root paths differ, comparing pids.
\<close>

function LCA_index_loop :: "individual list \<Rightarrow> ref list \<Rightarrow> ref list \<Rightarrow> nat \<Rightarrow> error + nat" where
  "LCA_index_loop st path_this path_dest i =
     (if i < length path_this \<and> i < length path_dest then
        (if \<not> (path_this ! i < length st \<and> path_dest ! i < length st) then
           Inl undefined_behaviour
         else if m_pid (st ! (path_this ! i)) \<noteq> m_pid (st ! (path_dest ! i)) then Inr i
         else LCA_index_loop st path_this path_dest (i + 1))
      else Inr i)"
  by pat_completeness auto
termination
  by (relation "measure (\<lambda>(st, path_this, path_dest, i). length path_this - i)") auto

declare LCA_index_loop.simps [simp del]

text \<open>
  \<open>Individual::calculate_path_to\<close>. The helper \<open>find_path_from_root_to_dest\<close> is declared
  outside the sources, so it is a parameter: given the heap, the root and the target it
  answers \<open>None\<close> where the C++ helper returns false, and the path it has filled in where
  the helper returns true.
\<close>

definition calculate_path_to ::
  "(individual list \<Rightarrow> ref option \<Rightarrow> ref \<Rightarrow> ref list option) \<Rightarrow> pedigree list \<Rightarrow> individual list
     \<Rightarrow> ref \<Rightarrow> ref option \<Rightarrow> error + ref list" where
  "calculate_path_to find_path_from_root_to_dest peds st this dest =
     (if \<not> this < length st then Inl undefined_behaviour
      else if \<not> pedigree_is_set (st ! this) then
        Inl (invalid_argument ''!(this->pedigree_is_set())'')
      else
        (case dest of
           None \<Rightarrow> Inl (invalid_argument ''dest is NULL'')
         | Some d \<Rightarrow>
             if \<not> d < length st then Inl undefined_behaviour
             else if \<not> pedigree_is_set (st ! d) then
               Inl (invalid_argument ''!(dest->pedigree_is_set())'')
             else if m_pedigree_id (st ! this) \<noteq> m_pedigree_id (st ! d) then Inr []
             else
               (case m_pedigree (st ! this) of
                  None \<Rightarrow> Inl undefined_behaviour
                | Some p \<Rightarrow>
                    if \<not> p < length peds then Inl undefined_behaviour
                    else
                      (case find_path_from_root_to_dest st (root (peds ! p)) this of
                         None \<Rightarrow>
                           Inl (invalid_argument ''Could not find path between root and this'')
                       | Some path_this \<Rightarrow>
                           (case find_path_from_root_to_dest st (root (peds ! p)) d of
                              None \<Rightarrow>
                                Inl (invalid_argument
                                  ''Could not find path between root and dest'')
                            | Some path_dest \<Rightarrow>
                                (case LCA_index_loop st path_this path_dest 0 of
                                   Inl e \<Rightarrow> Inl e
                                 | Inr LCA_index \<Rightarrow>
                                     if LCA_index = 0 then
                                       Inl (invalid_argument ''LCA_index cannot be 0'')
                                     else
                                       Inr (path_this ! (LCA_index - 1)
                                             # drop LCA_index path_this
                                             @ drop LCA_index path_dest)))))))"

section \<open>The genealogy sampler\<close>

text \<open>
  \<open>Individual::add_child\<close> appends the child to the children of \<open>this\<close> and makes \<open>this\<close>
  the child's father. Modelled from the spec: \<open>Individual::set_father\<close> is declared
  outside the sources; it stores the father link of the data model.
\<close>

definition add_child :: "ref \<Rightarrow> ref \<Rightarrow> individual list \<Rightarrow> individual list" where
  "add_child this child st =
     (let st1 = st[this := (st ! this)\<lparr> m_children := m_children (st ! this) @ [child] \<rparr>]
      in st1[child := (st1 ! child)\<lparr> m_father := Some this \<rparr>])"

definition set_father :: "ref \<Rightarrow> ref \<Rightarrow> individual list \<Rightarrow> individual list" where
  "set_father this father st = st[this := (st ! this)\<lparr> m_father := Some father \<rparr>]"

text \<open>
  The state of \<open>sample_geneology\<close>: the heap of Individuals, the population map from pid to
  Individual, the next pid, the three vectors of \<open>population_size\<close> pointers, the two
  founder counters, the generation counter and the position in the random source. The
  tables of the verbose result and the progress bar do not act on this state and are left
  out. \<open>Progress::check_abort\<close> is a parameter, asked once per generation.
\<close>

record simulation =
  heap :: "individual list"
  population_map :: "int \<rightharpoonup> ref"
  individual_id :: int
  end_generation :: "ref option list"
  children_generation :: "ref option list"
  fathers_generation :: "ref option list"
  founders_left :: int
  new_founders_left :: int
  generation :: nat
  draws :: nat

text \<open>
  \<open>sample_person\<close>: the draw scaled by the population size, converted to \<open>int\<close> (towards
  zero). The conversion is on unbounded integers; in the C++ it is undefined for a product
  beyond the range of \<open>int\<close>, that is for a population of more than 2147483647, which no
  run that allocates its Individuals reaches.
\<close>

definition sample_person :: "(nat \<Rightarrow> real) \<Rightarrow> nat \<Rightarrow> nat \<Rightarrow> int" where
  "sample_person u k population_size =
     (let x = u k * real population_size in if 0 \<le> x then \<lfloor>x\<rfloor> else \<lceil>x\<rceil>)"

text \<open>
  \<open>new Individual(individual_id++, generation)\<close>, registered in the population map: the
  new Individual takes the next free address. Incrementing the \<open>int\<close> counter at its
  largest value is undefined.
\<close>

definition new_Individual :: "int \<Rightarrow> simulation \<Rightarrow> error + ref \<times> simulation" where
  "new_Individual g s =
     (if individual_id s = 2147483647 then Inl undefined_behaviour
      else Inr (length (heap s),
                s\<lparr> heap := heap s @ [Individual (individual_id s) g],
                   individual_id := individual_id s + 1,
                   population_map := (population_map s)(individual_id s \<mapsto> length (heap s)) \<rparr>))"

function create_end_generation :: "nat \<Rightarrow> nat \<Rightarrow> simulation \<Rightarrow> error + simulation" where
  "create_end_generation population_size i s =
     (if i < population_size then
        (case new_Individual 0 s of
           Inl e \<Rightarrow> Inl e
         | Inr (indv, s1) \<Rightarrow>
             create_end_generation population_size (i + 1)
               (s1\<lparr> end_generation := (end_generation s1)[i := Some indv] \<rparr>))
      else Inr s)"
  by pat_completeness auto
termination
  by (relation "measure (\<lambda>(population_size, i, s). population_size - i)") auto

declare create_end_generation.simps [simp del]

text \<open>
  The father in slot \<open>father_i\<close> of the fathers' generation, created when the slot is still
  empty (``if this is the father's first child, create the father'').
\<close>

definition father_in_slot :: "nat \<Rightarrow> simulation \<Rightarrow> error + ref \<times> simulation" where
  "father_in_slot father_i s =
     (case fathers_generation s ! father_i of
        Some father \<Rightarrow> Inr (father, s)
      | None \<Rightarrow>
          (case new_Individual (int (generation s)) s of
             Inl e \<Rightarrow> Inl e
           | Inr (father, s1) \<Rightarrow>
               Inr (father,
                    s1\<lparr> fathers_generation := (fathers_generation s1)[father_i := Some father],
                        new_founders_left := new_founders_left s1 + 1 \<rparr>)))"

text \<open>
  The loop over the children of one generation, from child \<open>i\<close> on: each child that is not
  null draws the slot of its father and is linked to the father in that slot.
\<close>

function pick_fathers :: "(nat \<Rightarrow> real) \<Rightarrow> nat \<Rightarrow> nat \<Rightarrow> simulation \<Rightarrow> error + simulation" where
  "pick_fathers u population_size i s =
     (if i < population_size then
        (case children_generation s ! i of
           None \<Rightarrow> pick_fathers u population_size (i + 1) s
         | Some child \<Rightarrow>
             (let father_i = sample_person u (draws s) population_size;
                  s1 = s\<lparr> draws := draws s + 1 \<rparr>
              in if father_i < 0 \<or> \<not> nat father_i < population_size then
                   Inl undefined_behaviour
                 else
                   (case father_in_slot (nat father_i) s1 of
                      Inl e \<Rightarrow> Inl e
                    | Inr (father, s2) \<Rightarrow>
                        pick_fathers u population_size (i + 1)
                          (s2\<lparr> heap := add_child father child
                                         (set_father child father (heap s2)) \<rparr>))))
      else Inr s)"
  by pat_completeness auto
termination
  by (relation "measure (\<lambda>(u, population_size, i, s). population_size - i)") auto

declare pick_fathers.simps [simp del]

text \<open>
  The \<open>while\<close> loop over the generations. In the mode that simulates until one founder is
  left it need not terminate, so not returning is the value \<open>None\<close>.
\<close>

partial_function (option) sample_loop ::
  "(nat \<Rightarrow> real) \<Rightarrow> (nat \<Rightarrow> bool) \<Rightarrow> nat \<Rightarrow> bool \<Rightarrow> int \<Rightarrow> simulation
     \<Rightarrow> (error + simulation) option" where
  "sample_loop u check_abort population_size simulate_fixed_number_generations generations s =
     (if (simulate_fixed_number_generations \<and> int (generation s) < generations)
         \<or> (\<not> simulate_fixed_number_generations \<and> founders_left s > 1) then
        (case pick_fathers u population_size 0
                (s\<lparr> new_founders_left := 0,
                    fathers_generation := replicate population_size None \<rparr>) of
           Inl e \<Rightarrow> Some (Inl e)
         | Inr s1 \<Rightarrow>
             if check_abort (generation s1) then Some (Inl (Rcpp_stop ''Aborted''))
             else
               sample_loop u check_abort population_size simulate_fixed_number_generations
                 generations
                 (s1\<lparr> children_generation := fathers_generation s1,
                      founders_left := new_founders_left s1,
                      generation := generation s1 + 1 \<rparr>))
      else Some (Inr s))"

text \<open>
  \<open>sample_geneology\<close>. The result list of the C++ holds the population (here the heap and
  the population map of the final state), \<open>generations\<close> (the field \<open>generation\<close>),
  \<open>founders\<close> (the field \<open>founders_left\<close>) and the Individuals of generation 0
  (\<open>end_generation\<close>).
\<close>

definition sample_geneology ::
  "(nat \<Rightarrow> real) \<Rightarrow> (nat \<Rightarrow> bool) \<Rightarrow> nat \<Rightarrow> int \<Rightarrow> (error + simulation) option" where
  "sample_geneology u check_abort population_size generations =
     (if population_size \<le> 1 then Some (Inl (Rcpp_stop ''Please specify population_size > 1''))
      else if generations < - 1 \<or> generations = 0 then
        Some (Inl (Rcpp_stop
          ''Please specify generations as -1 (for simulation to 1 founder) or > 0''))
      else
        (case create_end_generation population_size 0
                \<lparr> heap = [], population_map = Map.empty, individual_id = 1,
                  end_generation = replicate population_size None,
                  children_generation = [], fathers_generation = [],
                  founders_left = 0, new_founders_left = 0, generation = 0, draws = 0 \<rparr> of
           Inl e \<Rightarrow> Some (Inl e)
         | Inr s \<Rightarrow>
             sample_loop u check_abort population_size (generations \<noteq> - 1) generations
               (s\<lparr> children_generation := end_generation s,
                   fathers_generation := replicate population_size None,
                   founders_left := int population_size,
                   generation := 1 \<rparr>)))"

section \<open>Invariants of the genealogy sampler\<close>

text \<open>
  The invariant of the specification on father links: every Individual with a father is one
  generation below the father and among the father's children.
\<close>

definition links_ok :: "individual list \<Rightarrow> bool" where
  "links_ok st \<longleftrightarrow>
     (\<forall>x < length st. \<forall>f. m_father (st ! x) = Some f \<longrightarrow>
        f < length st \<and> m_generation (st ! f) = m_generation (st ! x) + 1
        \<and> x \<in> set (m_children (st ! f)))"

text \<open>
  The population map holds exactly the Individuals of the heap, under pids that count from 1
  in the order of allocation.
\<close>

definition population_ok :: "simulation \<Rightarrow> bool" where
  "population_ok s \<longleftrightarrow>
     individual_id s = int (length (heap s)) + 1
     \<and> (\<forall>r < length (heap s). m_pid (heap s ! r) = int r + 1
           \<and> population_map s (int r + 1) = Some r)
     \<and> (\<forall>pid r. population_map s pid = Some r \<longrightarrow> r < length (heap s))"

definition slots_filled :: "ref option list \<Rightarrow> nat" where
  "slots_filled xs = length (filter (\<lambda>x. x \<noteq> None) xs)"

text \<open>
  While the fathers of one generation are picked: the Individuals of the generation being
  created are exactly those in the slots of \<open>fathers_generation\<close>, they have no father yet,
  and \<open>new_founders_left\<close> counts the filled slots; the children are one generation below.
\<close>

definition pick_inv :: "nat \<Rightarrow> simulation \<Rightarrow> bool" where
  "pick_inv population_size s \<longleftrightarrow>
     length (children_generation s) = population_size
     \<and> length (fathers_generation s) = population_size
     \<and> links_ok (heap s)
     \<and> population_ok s
     \<and> (\<forall>r. Some r \<in> set (children_generation s) \<longrightarrow>
           r < length (heap s) \<and> m_generation (heap s ! r) = int (generation s) - 1)
     \<and> (\<forall>r. Some r \<in> set (fathers_generation s) \<longrightarrow>
           r < length (heap s) \<and> m_generation (heap s ! r) = int (generation s))
     \<and> (\<forall>r < length (heap s). m_generation (heap s ! r) \<le> int (generation s))
     \<and> (\<forall>r < length (heap s). m_generation (heap s ! r) = int (generation s) \<longrightarrow>
           Some r \<in> set (fathers_generation s) \<and> m_father (heap s ! r) = None)
     \<and> new_founders_left s = int (slots_filled (fathers_generation s))"

text \<open>
  At the head of the loop over the generations: the same for the generation created last,
  which is now the children's generation, with at least one Individual in it.
\<close>

definition generation_inv :: "nat \<Rightarrow> simulation \<Rightarrow> bool" where
  "generation_inv population_size s \<longleftrightarrow>
     length (children_generation s) = population_size
     \<and> links_ok (heap s)
     \<and> population_ok s
     \<and> (\<forall>r. Some r \<in> set (children_generation s) \<longrightarrow>
           r < length (heap s) \<and> m_generation (heap s ! r) = int (generation s) - 1)
     \<and> (\<forall>r < length (heap s). m_generation (heap s ! r) \<le> int (generation s) - 1)
     \<and> (\<forall>r < length (heap s). m_generation (heap s ! r) = int (generation s) - 1 \<longrightarrow>
           Some r \<in> set (children_generation s) \<and> m_father (heap s ! r) = None)
     \<and> founders_left s = int (slots_filled (children_generation s))
     \<and> 1 \<le> founders_left s"

text \<open>
  While generation 0 is created: the heap holds the first \<open>i\<close> Individuals, all of
  generation 0 and without a father, and \<open>end_generation\<close> points to them in order.
\<close>

definition init_inv :: "nat \<Rightarrow> nat \<Rightarrow> simulation \<Rightarrow> bool" where
  "init_inv population_size i s \<longleftrightarrow>
     length (heap s) = i
     \<and> (\<forall>r < i. m_generation (heap s ! r) = 0 \<and> m_father (heap s ! r) = None)
     \<and> population_ok s
     \<and> end_generation s = map Some [0..<i] @ replicate (population_size - i) None"

section \<open>Meiotic distance on a pedigree tree\<close>

definition dijkstra_reset :: "individual \<Rightarrow> individual" where
  "dijkstra_reset x = x\<lparr> m_dijkstra_visited := False, m_dijkstra_distance := 0 \<rparr>"

definition dijkstra_tick_distance :: "int \<Rightarrow> individual \<Rightarrow> individual" where
  "dijkstra_tick_distance step x = x\<lparr> m_dijkstra_distance := m_dijkstra_distance x + step \<rparr>"

definition dijkstra_mark_visited :: "individual \<Rightarrow> individual" where
  "dijkstra_mark_visited x = x\<lparr> m_dijkstra_visited := True \<rparr>"

text \<open>
  \<open>Individual::meiosis_dist_tree_internal\<close>, called on the Individual at \<open>this\<close> with the
  current node \<open>dest\<close> and the result cell \<open>dist'\<close>, and its loop over the children of
  \<open>dest\<close> that are still to visit, which carries the distance \<open>m\<close> of \<open>dest\<close>. The
  function returns the heap, whose scratch fields it changes, and the result cell. The
  recursion follows father and child pointers, so it carries fuel: the first argument bounds
  the depth of the calls, and \<open>None\<close> says that it ran out. The scratch distance is an
  \<open>int\<close> in the C++; here it is an unbounded integer.
\<close>

fun meiosis_dist_tree_internal ::
  "nat \<Rightarrow> individual list \<Rightarrow> ref \<Rightarrow> ref \<Rightarrow> int \<Rightarrow> (error + individual list \<times> int) option"
and meiosis_dist_tree_children ::
  "nat \<Rightarrow> individual list \<Rightarrow> ref \<Rightarrow> int \<Rightarrow> ref list \<Rightarrow> int
     \<Rightarrow> (error + individual list \<times> int) option"
where
  "meiosis_dist_tree_internal 0 st this dest dist' = None"
| "meiosis_dist_tree_internal (Suc n) st this dest dist' =
     (if \<not> (this < length st \<and> dest < length st) then Some (Inl undefined_behaviour)
      else if m_pid (st ! this) = m_pid (st ! dest) then
        Some (Inr (st, m_dijkstra_distance (st ! dest)))
      else if m_dijkstra_visited (st ! dest) then Some (Inr (st, dist'))
      else
        (let st1 = st[dest := dijkstra_tick_distance 1 (dijkstra_mark_visited (st ! dest))];
             m = m_dijkstra_distance (st1 ! dest)
         in case (case m_father (st1 ! dest) of
                    None \<Rightarrow> Some (Inr (st1, dist'))
                  | Some father \<Rightarrow>
                      if \<not> father < length st1 then Some (Inl undefined_behaviour)
                      else meiosis_dist_tree_internal n
                             (st1[father := dijkstra_tick_distance m (st1 ! father)])
                             this father dist') of
              None \<Rightarrow> None
            | Some (Inl e) \<Rightarrow> Some (Inl e)
            | Some (Inr (st2, dist2)) \<Rightarrow>
                meiosis_dist_tree_children n st2 this m (m_children (st2 ! dest)) dist2))"
| "meiosis_dist_tree_children n st this m [] dist' = Some (Inr (st, dist'))"
| "meiosis_dist_tree_children n st this m (child # children) dist' =
     (if \<not> child < length st then Some (Inl undefined_behaviour)
      else
        (case meiosis_dist_tree_internal n (st[child := dijkstra_tick_distance m (st ! child)])
                this child dist' of
           None \<Rightarrow> None
         | Some (Inl e) \<Rightarrow> Some (Inl e)
         | Some (Inr (st', dist2)) \<Rightarrow> meiosis_dist_tree_children n st' this m children dist2))"

text \<open>
  The loop of \<open>Individual::meiosis_dist_tree\<close> that resets the scratch fields of every
  member of the pedigree.
\<close>

fun dijkstra_reset_all :: "individual list \<Rightarrow> ref list \<Rightarrow> error + individual list" where
  "dijkstra_reset_all st [] = Inr st"
| "dijkstra_reset_all st (child # inds) =
     (if \<not> child < length st then Inl undefined_behaviour
      else dijkstra_reset_all (st[child := dijkstra_reset (st ! child)]) inds)"

text \<open>
  \<open>Individual::meiosis_dist_tree\<close>, called on the Individual at \<open>this\<close>. It returns the
  distance together with the heap, whose scratch fields the search has changed.
\<close>

definition meiosis_dist_tree ::
  "nat \<Rightarrow> pedigree list \<Rightarrow> individual list \<Rightarrow> ref \<Rightarrow> ref option
     \<Rightarrow> (error + individual list \<times> int) option" where
  "meiosis_dist_tree fuel peds st this dest =
     (if \<not> this < length st then Some (Inl undefined_behaviour)
      else if \<not> pedigree_is_set (st ! this) then
        Some (Inl (invalid_argument ''!(this->pedigree_is_set())''))
      else
        (case dest of
           None \<Rightarrow> Some (Inl (invalid_argument ''dest is NULL''))
         | Some d \<Rightarrow>
             if \<not> d < length st then Some (Inl undefined_behaviour)
             else if \<not> pedigree_is_set (st ! d) then
               Some (Inl (invalid_argument ''!(dest->pedigree_is_set())''))
             else if m_pedigree_id (st ! this) \<noteq> m_pedigree_id (st ! d) then
               Some (Inr (st, - 1))
             else
               (case m_pedigree (st ! this) of
                  None \<Rightarrow> Some (Inl undefined_behaviour)
                | Some p \<Rightarrow>
                    if \<not> p < length peds then Some (Inl undefined_behaviour)
                    else
                      (case dijkstra_reset_all st (all_individuals (peds ! p)) of
                         Inl e \<Rightarrow> Some (Inl e)
                       | Inr st1 \<Rightarrow> meiosis_dist_tree_internal fuel st1 this d 0))))"

section \<open>Pedigree trees: the notions the distance theorems speak of\<close>

text \<open>
  The ancestor \<open>n\<close> generations above an Individual, following the father pointers.
\<close>

primrec ancestor :: "individual list \<Rightarrow> nat \<Rightarrow> ref \<Rightarrow> ref option" where
  "ancestor st 0 x = Some x"
| "ancestor st (Suc n) x =
     (case ancestor st n x of None \<Rightarrow> None | Some y \<Rightarrow> m_father (st ! y))"

text \<open>
  The invariants of the data model that make the father and child links a forest: the
  father links are as \<open>links_ok\<close> says, the children of an Individual are distinct and have
  it as their father, and pids are unique.
\<close>

definition tree_heap :: "individual list \<Rightarrow> bool" where
  "tree_heap st \<longleftrightarrow>
     links_ok st
     \<and> (\<forall>f < length st. distinct (m_children (st ! f))
           \<and> (\<forall>c \<in> set (m_children (st ! f)). c < length st \<and> m_father (st ! c) = Some f))
     \<and> (\<forall>x < length st. \<forall>y < length st. m_pid (st ! x) = m_pid (st ! y) \<longrightarrow> x = y)"

text \<open>
  What the pedigree builder leaves behind: an Individual with a pedigree points to a
  pedigree of the table, Individuals with the same pedigree id point to the same pedigree,
  and the member list of that pedigree holds the Individual and, with every member, its
  father and its children.
\<close>

definition pedigrees_ok :: "pedigree list \<Rightarrow> individual list \<Rightarrow> bool" where
  "pedigrees_ok peds st \<longleftrightarrow>
     (\<forall>x < length st. pedigree_is_set (st ! x) \<longrightarrow>
        (\<exists>p < length peds. m_pedigree (st ! x) = Some p
           \<and> x \<in> set (all_individuals (peds ! p))
           \<and> (\<forall>y \<in> set (all_individuals (peds ! p)). y < length st
                 \<and> (\<forall>f. m_father (st ! y) = Some f \<longrightarrow> f \<in> set (all_individuals (peds ! p)))
                 \<and> set (m_children (st ! y)) \<subseteq> set (all_individuals (peds ! p)))))
     \<and> (\<forall>x < length st. \<forall>y < length st.
           pedigree_is_set (st ! x) \<and> m_pedigree_id (st ! x) = m_pedigree_id (st ! y) \<longrightarrow>
           m_pedigree (st ! x) = m_pedigree (st ! y))"

text \<open>
  A parent-child edge joins two Individuals when one is the father of the other. A path from
  \<open>a\<close> to \<open>b\<close> is a sequence of distinct Individuals of the heap from \<open>a\<close> to \<open>b\<close> in
  which each is joined to the next by a parent-child edge; it has one edge less than it has
  Individuals.
\<close>

definition parent_child_edge :: "individual list \<Rightarrow> ref \<Rightarrow> ref \<Rightarrow> bool" where
  "parent_child_edge st x y \<longleftrightarrow> m_father (st ! x) = Some y \<or> m_father (st ! y) = Some x"

definition tree_path :: "individual list \<Rightarrow> ref \<Rightarrow> ref \<Rightarrow> ref list \<Rightarrow> bool" where
  "tree_path st a b xs \<longleftrightarrow>
     xs \<noteq> [] \<and> hd xs = a \<and> last xs = b \<and> distinct xs
     \<and> (\<forall>x \<in> set xs. x < length st)
     \<and> successively (parent_child_edge st) xs"

text \<open>
  \<open>a\<close> and \<open>b\<close> meet \<open>i\<close> generations above \<open>a\<close> and \<open>j\<close> generations above \<open>b\<close>
  when they have the same ancestor there and, if both are below it, reach it through
  different children: that ancestor is their lowest common ancestor.
\<close>

definition meet :: "individual list \<Rightarrow> ref \<Rightarrow> ref \<Rightarrow> nat \<Rightarrow> nat \<Rightarrow> bool" where
  "meet st a b i j \<longleftrightarrow>
     ancestor st i a \<noteq> None \<and> ancestor st i a = ancestor st j b
     \<and> (0 < i \<and> 0 < j \<longrightarrow> ancestor st (i - 1) a \<noteq> ancestor st (j - 1) b)"

text \<open>
  Two heaps that differ in the scratch fields of the distance search only.
\<close>

definition same_links :: "individual list \<Rightarrow> individual list \<Rightarrow> bool" where
  "same_links st' st \<longleftrightarrow>
     length st' = length st \<and> (\<forall>x. dijkstra_reset (st' ! x) = dijkstra_reset (st ! x))"

text \<open>
  The Individuals that the search has not visited yet.
\<close>

definition unvisited :: "individual list \<Rightarrow> ref set" where
  "unvisited st = {x. x < length st \<and> \<not> m_dijkstra_visited (st ! x)}"

section \<open>The distance search: what its two phases establish\<close>

text \<open>
  \<open>below st d x\<close>: \<open>x\<close> is \<open>d\<close> or a descendant of \<open>d\<close>. \<open>clean st x\<close>: the search has
  not touched \<open>x\<close>. \<open>search_frame st st'\<close>: the search from \<open>st\<close> to \<open>st'\<close> has changed
  scratch fields only and has not taken back a visit.
\<close>

definition below :: "individual list \<Rightarrow> ref \<Rightarrow> ref \<Rightarrow> bool" where
  "below st d x \<longleftrightarrow> (\<exists>k. ancestor st k x = Some d)"

definition clean :: "individual list \<Rightarrow> ref \<Rightarrow> bool" where
  "clean st x \<longleftrightarrow> \<not> m_dijkstra_visited (st ! x) \<and> m_dijkstra_distance (st ! x) = 0"

definition search_frame :: "individual list \<Rightarrow> individual list \<Rightarrow> bool" where
  "search_frame st st' \<longleftrightarrow>
     same_links st' st
     \<and> (\<forall>x < length st. m_dijkstra_visited (st ! x) \<longrightarrow> m_dijkstra_visited (st' ! x))"

text \<open>
  Going down. The search enters \<open>d\<close> from its visited father \<open>f\<close>, the subtree of \<open>d\<close> is
  unvisited and, but for the distance just ticked into \<open>d\<close>, clean. Then it returns
  normally, has changed nothing outside that subtree but the distance of \<open>f\<close>, and the
  result cell holds the distance of \<open>d\<close> plus the depth of \<open>a\<close> below \<open>d\<close> when \<open>a\<close> is
  there, and is unchanged otherwise.
\<close>

definition search_down :: "nat \<Rightarrow> bool" where
  "search_down n \<longleftrightarrow>
     (\<forall>st a d f r res.
        tree_heap st \<and> a < length st \<and> d < length st
        \<and> m_father (st ! d) = Some f \<and> m_dijkstra_visited (st ! f) \<and> f \<noteq> a
        \<and> (\<forall>x < length st. below st d x \<longrightarrow>
              \<not> m_dijkstra_visited (st ! x) \<and> (x \<noteq> d \<longrightarrow> m_dijkstra_distance (st ! x) = 0))
        \<and> meiosis_dist_tree_internal n st a d r = Some res \<longrightarrow>
        (\<exists>st' r'. res = Inr (st', r') \<and> search_frame st st'
           \<and> (\<forall>x < length st. x \<noteq> f \<and> \<not> below st d x \<longrightarrow> st' ! x = st ! x)
           \<and> (\<forall>k. ancestor st k a = Some d \<longrightarrow> r' = m_dijkstra_distance (st ! d) + int k)
           \<and> (\<not> below st d a \<longrightarrow> r' = r)))"

text \<open>
  Going up. The search enters the unvisited node \<open>d\<close>, at the start or from its visited
  child \<open>co\<close>; every other Individual with a common ancestor with \<open>d\<close> that is not below
  that child is clean. Then it returns normally, has left the subtree below the child as it
  was, and the result cell holds the distance of \<open>d\<close> plus the number of edges from \<open>d\<close>
  up to the lowest common ancestor and down to \<open>a\<close> when there is one and the way does not
  lead through the child, and is unchanged otherwise.
\<close>

definition search_up :: "nat \<Rightarrow> bool" where
  "search_up n \<longleftrightarrow>
     (\<forall>st a d co r res.
        tree_heap st \<and> a < length st \<and> d < length st \<and> \<not> m_dijkstra_visited (st ! d)
        \<and> (\<forall>c. co = Some c \<longrightarrow>
              c < length st \<and> m_father (st ! c) = Some d \<and> m_dijkstra_visited (st ! c) \<and> c \<noteq> a)
        \<and> (\<forall>x < length st. \<forall>i j t. x \<noteq> d \<and> ancestor st j d = Some t \<and> ancestor st i x = Some t
              \<and> (\<forall>c. co = Some c \<longrightarrow> \<not> below st c x) \<longrightarrow> clean st x)
        \<and> meiosis_dist_tree_internal n st a d r = Some res \<longrightarrow>
        (\<exists>st' r'. res = Inr (st', r') \<and> search_frame st st'
           \<and> (\<forall>x < length st. \<forall>c. co = Some c \<and> below st c x \<and> x \<noteq> c \<longrightarrow> st' ! x = st ! x)
           \<and> (\<forall>i j. meet st a d i j
                   \<and> (\<forall>c. co = Some c \<and> j = 0 \<and> 0 < i \<longrightarrow> ancestor st (i - 1) a \<noteq> Some c) \<longrightarrow>
                 r' = m_dijkstra_distance (st ! d) + int i + int j)
           \<and> ((\<forall>i j. \<not> (meet st a d i j
                   \<and> (\<forall>c. co = Some c \<and> j = 0 \<and> 0 < i \<longrightarrow> ancestor st (i - 1) a \<noteq> Some c))) \<longrightarrow>
                 r' = r)))"

text \<open>
  The search returns: it has a result and, when that is a normal one, it has kept the size
  of the heap and has not unvisited anyone.
\<close>

definition search_returns ::
  "individual list \<Rightarrow> (error + individual list \<times> int) option \<Rightarrow> bool" where
  "search_returns st out \<longleftrightarrow>
     (\<exists>res. out = Some res
        \<and> (\<forall>st' r'. res = Inr (st', r') \<longrightarrow>
              length st' = length st \<and> card (unvisited st') \<le> card (unvisited st)))"

section \<open>A three-generation family\<close>

text \<open>
  A grandfather, his son and his grandson in one pedigree, a stranger in a second pedigree
  and an Individual without a pedigree: the heap on which the distance theorems are
  evaluated.
\<close>

definition family_heap :: "individual list" where
  "family_heap =
     [(Individual 1 2)\<lparr> m_children := [1], m_pedigree_id := 1, m_pedigree := Some 0 \<rparr>,
      (Individual 2 1)\<lparr> m_father := Some 0, m_children := [2], m_pedigree_id := 1,
                        m_pedigree := Some 0 \<rparr>,
      (Individual 3 0)\<lparr> m_father := Some 1, m_pedigree_id := 1, m_pedigree := Some 0 \<rparr>,
      (Individual 4 0)\<lparr> m_pedigree_id := 2, m_pedigree := Some 1 \<rparr>,
      Individual 5 0]"

definition family_pedigrees :: "pedigree list" where
  "family_pedigrees =
     [\<lparr> all_individuals = [0, 1, 2], root = Some 0 \<rparr>,
      \<lparr> all_individuals = [3], root = Some 3 \<rparr>]"

section \<open>Properties: mutation of haplotypes\<close>

text \<open>
  C1: with haplotype [5], mutation rate 1 (every draw of \<open>R::runif(0, 1)\<close> is below it)
  and the ladder [5..5], the ladder-bounded mutation does not fail. The allele is neither
  below the minimum nor above the maximum; it equals the minimum, so the first of the two
  boundary branches moves it up to 6, above the maximum of the ladder. The function itself
  treats such an allele as an error: called again on its own result with the same ladder,
  it throws at the guard for an allele above the maximum. With the ladder [5..6] the allele
  becomes 6, as the specification says.
\<close>

theorem ladder_degenerate_overshoot:
  assumes "m_haplotype_set x" and "\<not> m_haplotype_mutated x" and "m_haplotype x = [5]"
    and "u k < 1" and "u (k + 1) < 1"
  shows "haplotype_mutate_ladder_bounded u k [1] [5] [5] x
           = Inr (x\<lparr> m_haplotype := [6] \<rparr>, k + 1)
       \<and> haplotype_mutate_ladder_bounded u (k + 1) [1] [5] [5] (x\<lparr> m_haplotype := [6] \<rparr>)
           = Inl (invalid_argument ''Haplotype locus higher than ladder minimum'')
       \<and> haplotype_mutate_ladder_bounded u k [1] [5] [6] x
           = Inr (x\<lparr> m_haplotype := [6] \<rparr>, k + 1)"
  using assms
  by (simp add: haplotype_mutate_ladder_bounded_def haplotype_mutate_ladder_bounded_loop.simps)

theorem ladder_degenerate_overshoot_witness:
  "haplotype_mutate_ladder_bounded (\<lambda>n. 1 / 3) 7 [1] [5] [5]
     (set_haplotype [5] (Individual 1 0))
     = Inr ((set_haplotype [5] (Individual 1 0))\<lparr> m_haplotype := [6] \<rparr>, 8)
   \<and> haplotype_mutate_ladder_bounded (\<lambda>n. 1 / 3) 8 [1] [5] [5]
     ((set_haplotype [5] (Individual 1 0))\<lparr> m_haplotype := [6] \<rparr>)
     = Inl (invalid_argument ''Haplotype locus higher than ladder minimum'')
   \<and> haplotype_mutate_ladder_bounded (\<lambda>n. 1 / 3) 7 [1] [5] [6]
     (set_haplotype [5] (Individual 1 0))
     = Inr ((set_haplotype [5] (Individual 1 0))\<lparr> m_haplotype := [6] \<rparr>, 8)"
  using ladder_degenerate_overshoot [of "set_haplotype [5] (Individual 1 0)" "\<lambda>n. 1 / 3" 7]
  by (simp add: set_haplotype_def Individual_def)

lemma haplotype_mutate_unset:
  "\<not> m_haplotype_set x \<Longrightarrow>
   haplotype_mutate u k mutation_rates x
     = Inl (invalid_argument ''Father haplotype not set yet, so cannot mutate'')"
  by (simp add: haplotype_mutate_def)

lemma haplotype_mutate_ladder_bounded_unset:
  "\<not> m_haplotype_set x \<Longrightarrow>
   haplotype_mutate_ladder_bounded u k mutation_rates ladder_min ladder_max x
     = Inl (invalid_argument ''Father haplotype not set yet, so cannot mutate'')"
  by (simp add: haplotype_mutate_ladder_bounded_def)

lemma haplotype_mutate_keeps_flag:
  "haplotype_mutate u k mutation_rates x = Inr (x', k') \<Longrightarrow>
   m_haplotype_mutated x' = m_haplotype_mutated x \<and> m_haplotype_set x'"
  by (auto simp: haplotype_mutate_def split: if_splits sum.splits prod.splits)

lemma haplotype_mutate_ladder_bounded_keeps_flag:
  "haplotype_mutate_ladder_bounded u k mutation_rates ladder_min ladder_max x = Inr (x', k') \<Longrightarrow>
   m_haplotype_mutated x' = m_haplotype_mutated x \<and> m_haplotype_set x'"
  by (auto simp: haplotype_mutate_ladder_bounded_def split: if_splits sum.splits prod.splits)

text \<open>
  C8: a haplotype that has been mutated is mutated again without an error. Both mutation
  functions test \<open>m_haplotype_mutated\<close> and throw when it holds, but neither they nor
  \<open>set_haplotype\<close> ever set it, so the second mutation of the same haplotype succeeds:
  here two calls in a row take the allele 5 to 4 and then to 3, and the ladder-bounded
  variant takes 5 to 6 and then to 5.
\<close>

theorem haplotype_mutated_twice:
  "haplotype_mutate (\<lambda>n. 1 / 4) 0 [1] (set_haplotype [5] (Individual 1 0))
     = Inr (set_haplotype [4] (Individual 1 0), 2)
   \<and> haplotype_mutate (\<lambda>n. 1 / 4) 2 [1] (set_haplotype [4] (Individual 1 0))
     = Inr (set_haplotype [3] (Individual 1 0), 4)
   \<and> haplotype_mutate_ladder_bounded (\<lambda>n. 1 / 4) 0 [1] [5] [6]
       (set_haplotype [5] (Individual 1 0))
     = Inr (set_haplotype [6] (Individual 1 0), 1)
   \<and> haplotype_mutate_ladder_bounded (\<lambda>n. 1 / 4) 1 [1] [5] [6]
       (set_haplotype [6] (Individual 1 0))
     = Inr (set_haplotype [5] (Individual 1 0), 2)"
  by (simp add: haplotype_mutate_def haplotype_mutate_ladder_bounded_def set_haplotype_def
      Individual_def haplotype_mutate_loop.simps haplotype_mutate_ladder_bounded_loop.simps)

section \<open>Properties: genotype probabilities\<close>

lemma genotype_row_append:
  "genotype_row theta ps i (js @ js') = genotype_row theta ps i js @ genotype_row theta ps i js'"
  by (induction js) simp_all

lemma genotype_rows_append:
  "genotype_rows theta ps (is @ is') = genotype_rows theta ps is @ genotype_rows theta ps is'"
  by (induction "is") simp_all

lemma sum_genotype_row_off_diagonal:
  "i \<notin> set js \<Longrightarrow>
   sum_list (genotype_row theta ps i js) = (1 - theta) * 2 * ps ! i * (\<Sum>j\<leftarrow>js. ps ! j)"
  by (induction js) (simp_all add: genotype_prob_def algebra_simps)

lemma sum_genotype_row:
  "sum_list (genotype_row theta ps i [0..<Suc i]) =
     theta * ps ! i + (1 - theta) * ps ! i * ps ! i
     + (1 - theta) * 2 * ps ! i * (\<Sum>j\<leftarrow>[0..<i]. ps ! j)"
proof -
  have "sum_list (genotype_row theta ps i [0..<Suc i]) =
          sum_list (genotype_row theta ps i [0..<i]) + genotype_prob theta ps i i"
    by (simp add: genotype_row_append)
  then show ?thesis
    by (simp add: sum_genotype_row_off_diagonal genotype_prob_def)
qed

text \<open>
  The sum over the first \<open>n\<close> rows of the lower triangle, by induction on \<open>n\<close>: with
  \<open>s\<close> the sum of the first \<open>n\<close> allele probabilities it is
  \<open>theta * s + (1 - theta) * s\<^sup>2\<close>.
\<close>

lemma sum_genotype_rows:
  "sum_list (genotype_rows theta ps [0..<n]) =
     theta * (\<Sum>j\<leftarrow>[0..<n]. ps ! j) + (1 - theta) * (\<Sum>j\<leftarrow>[0..<n]. ps ! j)\<^sup>2"
proof (induction n)
  case 0
  then show ?case by simp
next
  case (Suc n)
  have "sum_list (genotype_rows theta ps [0..<Suc n]) =
          sum_list (genotype_rows theta ps [0..<n])
          + sum_list (genotype_row theta ps n [0..<Suc n])"
    by (simp add: genotype_rows_append)
  then show ?case
    unfolding Suc.IH sum_genotype_row
    by (simp add: power2_eq_square algebra_simps)
qed

lemma sum_nth_upt: "(\<Sum>j\<leftarrow>[0..<length ps]. ps ! j) = sum_list (ps :: real list)"
  by (simp add: map_nth)

text \<open>
  C3, as the specification states it: for p = [0.2, 0.3, 0.5] and theta = 0.1 the entries
  for the genotypes 00 and 11 are 0.052 and 0.093 up to 1e-9. They are not: both are further
  away than 1e-9 from what the function returns.
\<close>

theorem genotype_probs_scenario_counterexample:
  "\<exists>v. calc_autosomal_genotype_probs [0.2, 0.3, 0.5] 0.1 = Inr v
       \<and> \<bar>v ! 0 - 0.052\<bar> > 1 / 10 ^ 9 \<and> \<bar>v ! 2 - 0.093\<bar> > 1 / 10 ^ 9"
  by (simp add: calc_autosomal_genotype_probs_def genotype_prob_def upt_conv_Cons)

text \<open>
  C3, amended: for p = [0.2, 0.3, 0.5] and theta = 0.1 the function returns a genotype
  vector of six entries, in the order 00, 10, 11, 20, 21, 22, each within 1e-9 of the
  entry of [0.056, 0.108, 0.111, 0.180, 0.270, 0.275]; that vector sums to 1, and so does,
  within 1e-9, the vector returned.
\<close>

theorem genotype_probs_scenario:
  "\<exists>v. calc_autosomal_genotype_probs [0.2, 0.3, 0.5] 0.1 = Inr v \<and> length v = 6
       \<and> \<bar>v ! 0 - 0.056\<bar> \<le> 1 / 10 ^ 9 \<and> \<bar>v ! 1 - 0.108\<bar> \<le> 1 / 10 ^ 9
       \<and> \<bar>v ! 2 - 0.111\<bar> \<le> 1 / 10 ^ 9 \<and> \<bar>v ! 3 - 0.18\<bar> \<le> 1 / 10 ^ 9
       \<and> \<bar>v ! 4 - 0.27\<bar> \<le> 1 / 10 ^ 9 \<and> \<bar>v ! 5 - 0.275\<bar> \<le> 1 / 10 ^ 9
       \<and> sum_list [0.056, 0.108, 0.111, 0.18, 0.27, 0.275 :: real] = 1
       \<and> \<bar>sum_list v - 1\<bar> \<le> 1 / 10 ^ 9"
  by (simp add: calc_autosomal_genotype_probs_def genotype_prob_def upt_conv_Cons)

text \<open>
  C4: for every allele distribution with entries in [0, 1] that sums to 1 and every theta
  in [0, 1], \<open>calc_autosomal_genotype_probs\<close> returns a vector, and the vector sums to
  exactly 1.
\<close>

theorem genotype_probs_sum_to_one:
  assumes "\<forall>p \<in> set allele_dist. 0 \<le> p \<and> p \<le> 1" and "sum_list allele_dist = 1"
    and "0 \<le> theta" and "theta \<le> 1"
  shows "\<exists>v. calc_autosomal_genotype_probs allele_dist theta = Inr v \<and> sum_list v = 1"
proof -
  have no_stop: "\<not> ((\<exists>p \<in> set allele_dist. p < 0) \<or> (\<exists>p \<in> set allele_dist. p > 1))"
    using assms(1) by (auto simp: not_less)
  have "calc_autosomal_genotype_probs allele_dist theta =
          Inr (genotype_rows theta allele_dist [0..<length allele_dist])"
    unfolding calc_autosomal_genotype_probs_def using no_stop assms(2-4)
    by (simp add: Let_def)
  moreover have "sum_list (genotype_rows theta allele_dist [0..<length allele_dist]) = 1"
    unfolding sum_genotype_rows sum_nth_upt using assms(2) by (simp add: algebra_simps)
  ultimately show ?thesis by simp
qed

theorem genotype_probs_sum_to_one_witness:
  "\<exists>v. calc_autosomal_genotype_probs [1 / 2, 1 / 2] (1 / 4) = Inr v \<and> sum_list v = 1"
proof -
  have "\<forall>p \<in> set [1 / 2, 1 / 2 :: real]. 0 \<le> p \<and> p \<le> 1" by simp
  moreover have "sum_list [1 / 2, 1 / 2 :: real] = 1" by simp
  ultimately show ?thesis
    by (rule genotype_probs_sum_to_one) simp_all
qed

section \<open>Properties: autosomal propagation\<close>

lemma autosomal_child_genotype_one_allele:
  assumes "2 \<le> length geno_father"
    and "\<forall>a \<in> set geno_father. 0 \<le> a \<and> nat a < length cumdists"
    and "\<forall>row \<in> set cumdists. length row = 1"
  shows "autosomal_child_genotype u k geno_father cumdists mutation_rate
           = Inl (invalid_argument ''max must be >= 1'')"
proof -
  define i :: nat where "i = (if u k < 0.5 then 0 else 1)"
  have i: "i < length geno_father" using assms(1) by (auto simp: i_def)
  define a where "a = geno_father ! i"
  have a_eq: "(if u k < 0.5 then geno_father ! 0 else geno_father ! 1) = a"
    by (simp add: a_def i_def)
  have "a \<in> set geno_father" using i by (simp add: a_def)
  then have a: "0 \<le> a" "nat a < length cumdists" using assms(2) by auto
  then have "cumdists ! nat a \<in> set cumdists" by simp
  then have len: "length (cumdists ! nat a) = 1" using assms(3) by blast
  then have ne: "cumdists ! nat a \<noteq> []" by auto
  show ?thesis
    unfolding autosomal_child_genotype_def a_eq
    using i a len ne
    by (simp add: i_def Let_def possible_mutate_index_def)
qed

lemma pass_autosomal_no_children:
  "this < length st \<Longrightarrow> m_children (st ! this) = [] \<Longrightarrow>
   pass_autosomal_to_children (Suc n) recursive cumdists mutation_rate u st this k
     = Some (Inr (st, k))"
  by simp

text \<open>
  C10, as stated: autosomal propagation raises an error whenever the allele count is 1. An
  Individual without children is a counterexample: the loop over the children does not run,
  no allele is drawn or mutated, and the call returns normally.
\<close>

theorem pass_autosomal_no_children_counterexample:
  "pass_autosomal_to_children 1 True [[1]] 0 (\<lambda>n. 1 / 2)
     [set_haplotype [0, 0] (Individual 1 0)] 0 0
   = Some (Inr ([set_haplotype [0, 0] (Individual 1 0)], 0))"
  by (simp add: Individual_def set_haplotype_def)

text \<open>
  C10, amended: for an Individual with at least one child whose stored genotype holds two
  allele indices that are rows of the conditional cumulative distributions, when every row
  has one entry (the allele count is 1, so \<open>max\<close> is 0), autosomal propagation throws
  ``max must be >= 1'' at the first child, for every mutation rate (0 too), every random
  source and with or without recursion: the helper rejects \<open>max \<le> 0\<close> before it draws.
\<close>

theorem pass_autosomal_one_allele:
  assumes "this < length st" and "m_children (st ! this) \<noteq> []"
    and "2 \<le> length (m_haplotype (st ! this))"
    and "\<forall>a \<in> set (m_haplotype (st ! this)). 0 \<le> a \<and> nat a < length cumdists"
    and "\<forall>row \<in> set cumdists. length row = 1"
  shows "pass_autosomal_to_children (Suc n) recursive cumdists mutation_rate u st this k
           = Some (Inl (invalid_argument ''max must be >= 1''))"
proof -
  obtain child children where c: "m_children (st ! this) = child # children"
    using assms(2) by (cases "m_children (st ! this)") auto
  show ?thesis
    using assms(1) c autosomal_child_genotype_one_allele [OF assms(3-5)]
    by simp
qed

theorem pass_autosomal_one_allele_witness:
  "pass_autosomal_to_children (Suc 0) True [[1]] 0 (\<lambda>n. 1 / 2)
     [(set_haplotype [0, 0] (Individual 2 1))\<lparr> m_children := [1] \<rparr>,
      (Individual 1 0)\<lparr> m_father := Some 0 \<rparr>] 0 0
   = Some (Inl (invalid_argument ''max must be >= 1''))"
  by (rule pass_autosomal_one_allele) (simp_all add: Individual_def set_haplotype_def)

section \<open>Properties: the path through the lowest common ancestor\<close>

text \<open>
  C2, as stated: for two Individuals with pedigrees assigned that lie in different
  pedigrees, \<open>calculate_path_to\<close> fails. It does not: it returns the empty path, whatever
  the path helper is.
\<close>

theorem calculate_path_to_cross_pedigree_counterexample:
  "calculate_path_to (\<lambda>st r x. None) []
     [(Individual 1 0)\<lparr> m_pedigree_id := 1, m_pedigree := Some 0 \<rparr>,
      (Individual 2 0)\<lparr> m_pedigree_id := 2, m_pedigree := Some 1 \<rparr>] 0 (Some 1) = Inr []"
  by (simp add: calculate_path_to_def pedigree_is_set_def Individual_def)

text \<open>
  C2, amended: for two Individuals with pedigrees assigned, \<open>calculate_path_to\<close> returns
  the empty path when they lie in different pedigrees; when they lie in the same pedigree it
  throws ``Could not find path between root and this'' when the path from the pedigree root
  to the first cannot be found, and ``Could not find path between root and dest'' when that
  path is found and the path to the second cannot.
\<close>

theorem calculate_path_to_failures:
  assumes "this < length st" and "d < length st"
    and "pedigree_is_set (st ! this)" and "pedigree_is_set (st ! d)"
  shows "(m_pedigree_id (st ! this) \<noteq> m_pedigree_id (st ! d) \<longrightarrow>
            calculate_path_to f peds st this (Some d) = Inr [])
       \<and> (m_pedigree_id (st ! this) = m_pedigree_id (st ! d)
            \<and> m_pedigree (st ! this) = Some p \<and> p < length peds
            \<and> f st (root (peds ! p)) this = None \<longrightarrow>
            calculate_path_to f peds st this (Some d)
              = Inl (invalid_argument ''Could not find path between root and this''))
       \<and> (m_pedigree_id (st ! this) = m_pedigree_id (st ! d)
            \<and> m_pedigree (st ! this) = Some p \<and> p < length peds
            \<and> f st (root (peds ! p)) this \<noteq> None \<and> f st (root (peds ! p)) d = None \<longrightarrow>
            calculate_path_to f peds st this (Some d)
              = Inl (invalid_argument ''Could not find path between root and dest''))"
  using assms by (auto simp: calculate_path_to_def split: option.splits)

theorem calculate_path_to_failures_witness:
  "calculate_path_to (\<lambda>st r x. None) [\<lparr> all_individuals = [0, 1], root = Some 0 \<rparr>]
     [(Individual 1 1)\<lparr> m_pedigree_id := 1, m_pedigree := Some 0, m_children := [1] \<rparr>,
      (Individual 2 0)\<lparr> m_pedigree_id := 1, m_pedigree := Some 0, m_father := Some 0 \<rparr>]
     0 (Some 1)
   = Inl (invalid_argument ''Could not find path between root and this'')"
  using calculate_path_to_failures [where this = 0 and d = 1 and p = 0
      and f = "\<lambda>st r x. None"
      and peds = "[\<lparr> all_individuals = [0, 1], root = Some 0 \<rparr>]"
      and st = "[(Individual 1 1)\<lparr> m_pedigree_id := 1, m_pedigree := Some 0,
                   m_children := [1] \<rparr>,
                 (Individual 2 0)\<lparr> m_pedigree_id := 1, m_pedigree := Some 0,
                   m_father := Some 0 \<rparr>]"]
  by (simp add: pedigree_is_set_def Individual_def)

section \<open>Properties: the genealogy sampler\<close>

lemma new_Individual_Inr:
  assumes "new_Individual g s = Inr (r, s')"
  shows "r = length (heap s)"
    and "s' = s\<lparr> heap := heap s @ [Individual (individual_id s) g],
                  individual_id := individual_id s + 1,
                  population_map := (population_map s)(individual_id s \<mapsto> length (heap s)) \<rparr>"
  using assms by (auto simp: new_Individual_def split: if_splits)

lemma slots_filled_update:
  "i < length xs \<Longrightarrow> xs ! i = None \<Longrightarrow> slots_filled (xs[i := Some f]) = Suc (slots_filled xs)"
proof (induction xs arbitrary: i)
  case Nil
  then show ?case by simp
next
  case (Cons x xs)
  then show ?case by (cases i) (auto simp: slots_filled_def)
qed

lemma slots_filled_replicate: "slots_filled (replicate n None) = 0"
  by (simp add: slots_filled_def)

lemma slots_filled_pos: "i < length xs \<Longrightarrow> xs ! i \<noteq> None \<Longrightarrow> 0 < slots_filled xs"
proof -
  assume "i < length xs" and "xs ! i \<noteq> None"
  then have "xs ! i \<in> set (filter (\<lambda>x. x \<noteq> None) xs)" by simp
  then show ?thesis unfolding slots_filled_def by (rule length_pos_if_in_set)
qed

lemma slots_filled_one:
  assumes "slots_filled xs = 1"
  shows "\<exists>r. Some r \<in> set xs \<and> (\<forall>r'. Some r' \<in> set xs \<longrightarrow> r' = r)"
proof -
  from assms obtain y where y: "filter (\<lambda>x. x \<noteq> None) xs = [y]"
    by (auto simp: slots_filled_def length_Suc_conv)
  then have "set (filter (\<lambda>x. x \<noteq> None) xs) = {y}" by simp
  then have s: "{x \<in> set xs. x \<noteq> None} = {y}" by simp
  then have "y \<in> {x \<in> set xs. x \<noteq> None}" by blast
  then obtain r where r: "y = Some r" and rin: "Some r \<in> set xs" by auto
  have "\<And>r'. Some r' \<in> set xs \<Longrightarrow> r' = r"
  proof -
    fix r' assume "Some r' \<in> set xs"
    then have "Some r' \<in> {x \<in> set xs. x \<noteq> None}" by simp
    then have "Some r' = y" unfolding s by simp
    then show "r' = r" using r by simp
  qed
  then show ?thesis using rin by blast
qed

lemma in_set_update_other:
  assumes "x \<in> set xs" and "xs ! i \<noteq> x"
  shows "x \<in> set (xs[i := y])"
proof -
  from assms(1) obtain j where j: "j < length xs" "xs ! j = x"
    by (auto simp: in_set_conv_nth)
  then have "j \<noteq> i" using assms(2) by auto
  then have "xs[i := y] ! j = x" using j by simp
  then show ?thesis using j(1) by (metis length_list_update nth_mem)
qed

lemma links_ok_append:
  assumes "links_ok st"
  shows "links_ok (st @ [Individual pid g])"
  unfolding links_ok_def
proof (intro allI impI)
  fix x f
  assume x: "x < length (st @ [Individual pid g])"
    and f: "m_father ((st @ [Individual pid g]) ! x) = Some f"
  have "x \<noteq> length st" using f by (auto simp: nth_append Individual_def)
  then have x': "x < length st" using x by simp
  then have "m_father (st ! x) = Some f" using f by (simp add: nth_append)
  then have "f < length st \<and> m_generation (st ! f) = m_generation (st ! x) + 1
      \<and> x \<in> set (m_children (st ! f))"
    using assms x' by (simp add: links_ok_def)
  then show "f < length (st @ [Individual pid g])
      \<and> m_generation ((st @ [Individual pid g]) ! f)
          = m_generation ((st @ [Individual pid g]) ! x) + 1
      \<and> x \<in> set (m_children ((st @ [Individual pid g]) ! f))"
    using x' by (simp add: nth_append)
qed

lemma population_ok_new:
  assumes "population_ok s"
  shows "population_ok (s\<lparr> heap := heap s @ [Individual (individual_id s) g],
                  individual_id := individual_id s + 1,
                  population_map := (population_map s)(individual_id s \<mapsto> length (heap s)) \<rparr>)"
  using assms unfolding population_ok_def
  by (auto simp: nth_append Individual_def less_Suc_eq)

lemma pick_inv_new_father:
  assumes inv: "pick_inv M s" and idx: "idx < M" and empty: "fathers_generation s ! idx = None"
  defines "s1 \<equiv> s\<lparr> heap := heap s @ [Individual (individual_id s) (int (generation s))],
                    individual_id := individual_id s + 1,
                    population_map := (population_map s)(individual_id s \<mapsto> length (heap s)) \<rparr>"
  shows "pick_inv M (s1\<lparr> fathers_generation := (fathers_generation s1)[idx := Some (length (heap s))],
                        new_founders_left := new_founders_left s1 + 1 \<rparr>)"
proof -
  let ?new = "Individual (individual_id s) (int (generation s))"
  let ?fs = "(fathers_generation s)[idx := Some (length (heap s))]"
  have len: "length (fathers_generation s) = M" "length (children_generation s) = M"
    using inv by (simp_all add: pick_inv_def)
  have children: "\<And>r. Some r \<in> set (children_generation s) \<Longrightarrow>
      r < length (heap s) \<and> m_generation (heap s ! r) = int (generation s) - 1"
    using inv by (simp add: pick_inv_def)
  have fathers: "\<And>r. Some r \<in> set (fathers_generation s) \<Longrightarrow>
      r < length (heap s) \<and> m_generation (heap s ! r) = int (generation s)"
    using inv by (simp add: pick_inv_def)
  have le: "\<And>r. r < length (heap s) \<Longrightarrow> m_generation (heap s ! r) \<le> int (generation s)"
    using inv by (simp add: pick_inv_def)
  have this_gen: "\<And>r. r < length (heap s) \<Longrightarrow> m_generation (heap s ! r) = int (generation s) \<Longrightarrow>
      Some r \<in> set (fathers_generation s) \<and> m_father (heap s ! r) = None"
    using inv by (simp add: pick_inv_def)
  have count: "new_founders_left s = int (slots_filled (fathers_generation s))"
    using inv by (simp add: pick_inv_def)
  have new_gen: "m_generation ?new = int (generation s)" "m_father ?new = None"
    by (simp_all add: Individual_def)
  have c1: "links_ok (heap s @ [?new])"
    using inv by (simp add: pick_inv_def links_ok_append)
  have c2: "population_ok s1"
    unfolding s1_def using inv by (simp add: pick_inv_def population_ok_new)
  have c3: "\<forall>r. Some r \<in> set (children_generation s) \<longrightarrow>
      r < length (heap s @ [?new])
      \<and> m_generation ((heap s @ [?new]) ! r) = int (generation s) - 1"
  proof (intro allI impI)
    fix r assume "Some r \<in> set (children_generation s)"
    then have "r < length (heap s) \<and> m_generation (heap s ! r) = int (generation s) - 1"
      by (rule children)
    then show "r < length (heap s @ [?new])
      \<and> m_generation ((heap s @ [?new]) ! r) = int (generation s) - 1"
      by (simp add: nth_append)
  qed
  have c4: "\<forall>r. Some r \<in> set ?fs \<longrightarrow>
      r < length (heap s @ [?new]) \<and> m_generation ((heap s @ [?new]) ! r) = int (generation s)"
  proof (intro allI impI)
    fix r assume "Some r \<in> set ?fs"
    then have "Some r \<in> insert (Some (length (heap s))) (set (fathers_generation s))"
      using set_update_subset_insert by fastforce
    then consider "r = length (heap s)" | "Some r \<in> set (fathers_generation s)" by auto
    then show "r < length (heap s @ [?new])
        \<and> m_generation ((heap s @ [?new]) ! r) = int (generation s)"
    proof cases
      case 1
      then show ?thesis using new_gen by simp
    next
      case 2
      then have "r < length (heap s) \<and> m_generation (heap s ! r) = int (generation s)"
        by (rule fathers)
      then show ?thesis by (simp add: nth_append)
    qed
  qed
  have c5: "\<forall>r < length (heap s @ [?new]).
      m_generation ((heap s @ [?new]) ! r) \<le> int (generation s)"
  proof (intro allI impI)
    fix r assume "r < length (heap s @ [?new])"
    then consider "r = length (heap s)" | "r < length (heap s)" by fastforce
    then show "m_generation ((heap s @ [?new]) ! r) \<le> int (generation s)"
    proof cases
      case 1
      then show ?thesis using new_gen by simp
    next
      case 2
      then show ?thesis using le [OF 2] by (simp add: nth_append)
    qed
  qed
  have c6: "\<forall>r < length (heap s @ [?new]).
      m_generation ((heap s @ [?new]) ! r) = int (generation s) \<longrightarrow>
      Some r \<in> set ?fs \<and> m_father ((heap s @ [?new]) ! r) = None"
  proof (intro allI impI)
    fix r assume r: "r < length (heap s @ [?new])"
      and g: "m_generation ((heap s @ [?new]) ! r) = int (generation s)"
    show "Some r \<in> set ?fs \<and> m_father ((heap s @ [?new]) ! r) = None"
    proof (cases "r < length (heap s)")
      case True
      then have "Some r \<in> set (fathers_generation s) \<and> m_father (heap s ! r) = None"
        using g this_gen by (simp add: nth_append)
      moreover have "fathers_generation s ! idx \<noteq> Some r" using empty by simp
      ultimately show ?thesis using True by (simp add: in_set_update_other nth_append)
    next
      case False
      then have "r = length (heap s)" using r by simp
      then show ?thesis using idx len new_gen by (simp add: set_update_memI)
    qed
  qed
  have c7: "new_founders_left s + 1 = int (slots_filled ?fs)"
    using count idx len empty by (simp add: slots_filled_update)
  have c2': "population_ok
      (s1\<lparr> fathers_generation := (fathers_generation s1)[idx := Some (length (heap s))],
           new_founders_left := new_founders_left s1 + 1 \<rparr>)"
    using c2 by (simp add: population_ok_def)
  show ?thesis
    unfolding pick_inv_def using len c1 c2' c3 c4 c5 c6 c7
    by (simp add: s1_def)
qed

lemma father_in_slot_inv:
  assumes inv: "pick_inv M s" and idx: "idx < M"
    and res: "father_in_slot idx s = Inr (father, s2)"
  shows "pick_inv M s2 \<and> fathers_generation s2 ! idx = Some father
       \<and> children_generation s2 = children_generation s \<and> generation s2 = generation s
       \<and> draws s2 = draws s \<and> 1 \<le> new_founders_left s2"
proof (cases "fathers_generation s ! idx")
  case None
  from res None obtain r s1 where n: "new_Individual (int (generation s)) s = Inr (r, s1)"
    and s2: "s2 = s1\<lparr> fathers_generation := (fathers_generation s1)[idx := Some r],
                        new_founders_left := new_founders_left s1 + 1 \<rparr>"
    and f: "father = r"
    by (auto simp: father_in_slot_def split: sum.splits)
  note ni = new_Individual_Inr [OF n]
  have "pick_inv M s2"
    unfolding s2 ni(1) ni(2) by (rule pick_inv_new_father [OF inv idx None])
  moreover have "length (fathers_generation s) = M" using inv by (simp add: pick_inv_def)
  moreover have "0 \<le> new_founders_left s" using inv by (simp add: pick_inv_def)
  ultimately show ?thesis
    using idx f unfolding s2 ni(2) by simp
next
  case (Some f)
  then have eq: "s2 = s" "father = f" using res by (auto simp: father_in_slot_def)
  have "length (fathers_generation s) = M"
    and "new_founders_left s = int (slots_filled (fathers_generation s))"
    using inv by (simp_all add: pick_inv_def)
  then have "1 \<le> new_founders_left s"
    using slots_filled_pos [of idx "fathers_generation s"] idx Some by simp
  then show ?thesis using inv Some eq by simp
qed

lemma link_heap:
  assumes "child < length st" and "father < length st" and "child \<noteq> father"
  shows "length (add_child father child (set_father child father st)) = length st"
    and "\<And>x. x < length st \<Longrightarrow>
      add_child father child (set_father child father st) ! x =
        (if x = child then (st ! x)\<lparr> m_father := Some father \<rparr>
         else if x = father then (st ! x)\<lparr> m_children := m_children (st ! x) @ [child] \<rparr>
         else st ! x)"
  using assms by (auto simp: add_child_def set_father_def Let_def)

lemma pick_inv_link:
  assumes inv: "pick_inv M s" and c: "Some child \<in> set (children_generation s)"
    and f: "Some father \<in> set (fathers_generation s)"
  shows "pick_inv M (s\<lparr> heap := add_child father child (set_father child father (heap s)) \<rparr>)"
proof -
  let ?h = "add_child father child (set_father child father (heap s))"
  have children: "\<And>r. Some r \<in> set (children_generation s) \<Longrightarrow>
      r < length (heap s) \<and> m_generation (heap s ! r) = int (generation s) - 1"
    using inv by (simp add: pick_inv_def)
  have fathers: "\<And>r. Some r \<in> set (fathers_generation s) \<Longrightarrow>
      r < length (heap s) \<and> m_generation (heap s ! r) = int (generation s)"
    using inv by (simp add: pick_inv_def)
  have le: "\<And>r. r < length (heap s) \<Longrightarrow> m_generation (heap s ! r) \<le> int (generation s)"
    using inv by (simp add: pick_inv_def)
  have this_gen: "\<And>r. r < length (heap s) \<Longrightarrow> m_generation (heap s ! r) = int (generation s) \<Longrightarrow>
      Some r \<in> set (fathers_generation s) \<and> m_father (heap s ! r) = None"
    using inv by (simp add: pick_inv_def)
  have links: "links_ok (heap s)" and pop: "population_ok s"
    using inv by (simp_all add: pick_inv_def)
  have cv: "child < length (heap s)" and cg: "m_generation (heap s ! child) = int (generation s) - 1"
    using children [OF c] by simp_all
  have fv: "father < length (heap s)" and fg: "m_generation (heap s ! father) = int (generation s)"
    using fathers [OF f] by simp_all
  have ne: "child \<noteq> father" using cg fg by auto
  note lh = link_heap [OF cv fv ne]
  have gen: "\<And>x. x < length (heap s) \<Longrightarrow> m_generation (?h ! x) = m_generation (heap s ! x)"
    by (simp add: lh(2))
  have pid: "\<And>x. x < length (heap s) \<Longrightarrow> m_pid (?h ! x) = m_pid (heap s ! x)"
    by (simp add: lh(2))
  have c1: "links_ok ?h"
    unfolding links_ok_def
  proof (intro allI impI)
    fix x p
    assume "x < length ?h" and p: "m_father (?h ! x) = Some p"
    then have x: "x < length (heap s)" by (simp add: lh(1))
    show "p < length ?h \<and> m_generation (?h ! p) = m_generation (?h ! x) + 1
        \<and> x \<in> set (m_children (?h ! p))"
    proof (cases "x = child")
      case True
      then have "p = father" using p x by (simp add: lh(2))
      then show ?thesis using True fv cv cg fg ne by (simp add: lh)
    next
      case False
      then have "m_father (heap s ! x) = Some p" using p x by (simp add: lh(2) split: if_splits)
      then have old: "p < length (heap s)" "m_generation (heap s ! p) = m_generation (heap s ! x) + 1"
        "x \<in> set (m_children (heap s ! p))"
        using links x by (auto simp: links_ok_def)
      then have "x \<in> set (m_children (?h ! p))" using ne by (auto simp: lh(2))
      then show ?thesis using old x by (simp add: lh(1) gen)
    qed
  qed
  have c2: "population_ok (s\<lparr> heap := ?h \<rparr>)"
    using pop by (simp add: population_ok_def lh(1) pid)
  have c6: "\<forall>r < length ?h. m_generation (?h ! r) = int (generation s) \<longrightarrow>
      Some r \<in> set (fathers_generation s) \<and> m_father (?h ! r) = None"
  proof (intro allI impI)
    fix r assume "r < length ?h" and g: "m_generation (?h ! r) = int (generation s)"
    then have r: "r < length (heap s)" by (simp add: lh(1))
    then have g': "m_generation (heap s ! r) = int (generation s)" using g by (simp add: gen)
    then have "r \<noteq> child" using cg by auto
    then have "m_father (?h ! r) = m_father (heap s ! r)" using r by (simp add: lh(2))
    then show "Some r \<in> set (fathers_generation s) \<and> m_father (?h ! r) = None"
      using this_gen [OF r g'] by simp
  qed
  have c3: "\<forall>r. Some r \<in> set (children_generation s) \<longrightarrow>
      r < length ?h \<and> m_generation (?h ! r) = int (generation s) - 1"
  proof (intro allI impI)
    fix r assume "Some r \<in> set (children_generation s)"
    from children [OF this]
    show "r < length ?h \<and> m_generation (?h ! r) = int (generation s) - 1"
      by (simp add: lh(1) gen)
  qed
  have c4: "\<forall>r. Some r \<in> set (fathers_generation s) \<longrightarrow>
      r < length ?h \<and> m_generation (?h ! r) = int (generation s)"
  proof (intro allI impI)
    fix r assume "Some r \<in> set (fathers_generation s)"
    from fathers [OF this]
    show "r < length ?h \<and> m_generation (?h ! r) = int (generation s)"
      by (simp add: lh(1) gen)
  qed
  have c5: "\<forall>r < length ?h. m_generation (?h ! r) \<le> int (generation s)"
  proof (intro allI impI)
    fix r assume "r < length ?h"
    then have r: "r < length (heap s)" by (simp add: lh(1))
    from le [OF r] show "m_generation (?h ! r) \<le> int (generation s)"
      using r by (simp add: gen)
  qed
  have len: "length (children_generation s) = M" "length (fathers_generation s) = M"
    and count: "new_founders_left s = int (slots_filled (fathers_generation s))"
    using inv by (simp_all add: pick_inv_def)
  have sel: "heap (s\<lparr> heap := ?h \<rparr>) = ?h"
    "children_generation (s\<lparr> heap := ?h \<rparr>) = children_generation s"
    "fathers_generation (s\<lparr> heap := ?h \<rparr>) = fathers_generation s"
    "generation (s\<lparr> heap := ?h \<rparr>) = generation s"
    "new_founders_left (s\<lparr> heap := ?h \<rparr>) = new_founders_left s"
    by simp_all
  show ?thesis
    unfolding pick_inv_def sel
    apply (intro conjI)
            apply (rule len(1))
           apply (rule len(2))
          apply (rule c1)
         apply (rule c2)
        apply (rule c3)
       apply (rule c4)
      apply (rule c5)
     apply (rule c6)
    apply (rule count)
    done
qed

lemma pick_inv_draws: "pick_inv M (s\<lparr> draws := d \<rparr>) = pick_inv M s"
  by (simp add: pick_inv_def population_ok_def)

lemma pick_fathers_inv:
  assumes "pick_inv M s" and "pick_fathers u M i s = Inr s'"
  shows "pick_inv M s' \<and> children_generation s' = children_generation s
       \<and> generation s' = generation s
       \<and> (1 \<le> new_founders_left s \<longrightarrow> 1 \<le> new_founders_left s')
       \<and> ((\<exists>j. i \<le> j \<and> j < M \<and> children_generation s ! j \<noteq> None) \<longrightarrow>
            1 \<le> new_founders_left s')"
  using assms
proof (induction "M - i" arbitrary: i s)
  case 0
  then have "s' = s" by (subst (asm) pick_fathers.simps) simp
  then show ?case using 0 by auto
next
  case (Suc n)
  then have i: "i < M" and n: "n = M - (i + 1)" by simp_all
  show ?case
  proof (cases "children_generation s ! i")
    case None
    then have res: "pick_fathers u M (i + 1) s = Inr s'"
      using i Suc.prems(2) by (subst (asm) pick_fathers.simps) simp
    note IH = Suc.hyps(1) [OF n Suc.prems(1) res]
    have "\<And>j. i \<le> j \<Longrightarrow> children_generation s ! j \<noteq> None \<Longrightarrow> i + 1 \<le> j"
      using None by (metis Suc_eq_plus1 Suc_leI le_neq_implies_less)
    then show ?thesis using IH by blast
  next
    case (Some child)
    define father_i where "father_i = sample_person u (draws s) M"
    define s1 where "s1 = s\<lparr> draws := draws s + 1 \<rparr>"
    have "\<exists>father s2. nat father_i < M
        \<and> father_in_slot (nat father_i) s1 = Inr (father, s2)
        \<and> pick_fathers u M (i + 1)
            (s2\<lparr> heap := add_child father child (set_father child father (heap s2)) \<rparr>)
          = Inr s'"
      using i Some Suc.prems(2) unfolding father_i_def s1_def
      by (subst (asm) pick_fathers.simps) (auto simp: Let_def split: if_splits sum.splits)
    then obtain father s2 where idx: "nat father_i < M"
      and fs: "father_in_slot (nat father_i) s1 = Inr (father, s2)"
      and res: "pick_fathers u M (i + 1)
            (s2\<lparr> heap := add_child father child (set_father child father (heap s2)) \<rparr>) = Inr s'"
      by blast
    have inv1: "pick_inv M s1" using Suc.prems(1) by (simp add: s1_def pick_inv_draws)
    from father_in_slot_inv [OF inv1 idx fs]
    have f1: "pick_inv M s2" and f2: "fathers_generation s2 ! nat father_i = Some father"
      and f3: "children_generation s2 = children_generation s1"
      and f4: "generation s2 = generation s1" and f5: "1 \<le> new_founders_left s2"
      by blast+
    have same: "children_generation s2 = children_generation s" "generation s2 = generation s"
      using f3 f4 by (simp_all add: s1_def)
    have len: "length (children_generation s2) = M" "length (fathers_generation s2) = M"
      using f1 by (simp_all add: pick_inv_def)
    have "children_generation s2 ! i \<in> set (children_generation s2)"
      using i len(1) by simp
    then have c: "Some child \<in> set (children_generation s2)"
      using Some same(1) by simp
    have "fathers_generation s2 ! nat father_i \<in> set (fathers_generation s2)"
      using idx len(2) by simp
    then have fa: "Some father \<in> set (fathers_generation s2)"
      using f2 by simp
    have inv3: "pick_inv M (s2\<lparr> heap := add_child father child
                                     (set_father child father (heap s2)) \<rparr>)"
      using f1 c fa by (rule pick_inv_link)
    from Suc.hyps(1) [OF n inv3 res]
    have IH1: "pick_inv M s'"
      and IH2: "children_generation s' = children_generation s2"
      and IH3: "generation s' = generation s2"
      and IH4: "1 \<le> new_founders_left s2 \<longrightarrow> 1 \<le> new_founders_left s'"
      by simp_all
    have "1 \<le> new_founders_left s'" using IH4 f5 by simp
    then show ?thesis using IH1 IH2 IH3 same by simp
  qed
qed

lemma generation_inv_start:
  assumes "generation_inv M s"
  shows "pick_inv M (s\<lparr> new_founders_left := 0, fathers_generation := replicate M None \<rparr>)"
proof -
  have "population_ok (s\<lparr> new_founders_left := 0, fathers_generation := replicate M None \<rparr>)"
    using assms by (simp add: generation_inv_def population_ok_def)
  moreover have "\<forall>r < length (heap s). m_generation (heap s ! r) \<le> int (generation s) - 1"
    using assms by (simp add: generation_inv_def)
  then have "\<forall>r < length (heap s). m_generation (heap s ! r) \<le> int (generation s)
      \<and> m_generation (heap s ! r) \<noteq> int (generation s)"
    by fastforce
  ultimately show ?thesis
    using assms by (simp add: generation_inv_def pick_inv_def slots_filled_replicate)
qed

lemma generation_inv_next:
  assumes "pick_inv M s" and "1 \<le> new_founders_left s"
  shows "generation_inv M (s\<lparr> children_generation := fathers_generation s,
                               founders_left := new_founders_left s,
                               generation := generation s + 1 \<rparr>)"
proof -
  have "population_ok (s\<lparr> children_generation := fathers_generation s,
                               founders_left := new_founders_left s,
                               generation := generation s + 1 \<rparr>)"
    using assms by (simp add: pick_inv_def population_ok_def)
  then show ?thesis
    using assms by (simp add: generation_inv_def pick_inv_def)
qed

lemma generation_inv_child:
  assumes "generation_inv M s"
  shows "\<exists>j. 0 \<le> j \<and> j < M \<and> children_generation s ! j \<noteq> None"
proof -
  have "0 < slots_filled (children_generation s)"
    using assms by (simp add: generation_inv_def)
  then have "filter (\<lambda>x. x \<noteq> None) (children_generation s) \<noteq> []"
    by (simp add: slots_filled_def)
  then obtain x where "x \<in> set (children_generation s)" "x \<noteq> None"
    by (auto simp: filter_empty_conv)
  then obtain j where "j < length (children_generation s)" "children_generation s ! j \<noteq> None"
    by (auto simp: in_set_conv_nth)
  then show ?thesis using assms by (auto simp: generation_inv_def)
qed

lemma sample_loop_inv_aux:
  assumes "sample_loop u check_abort M fixed G s = Some r"
  shows "generation_inv M s \<longrightarrow> (\<forall>s'. r = Inr s' \<longrightarrow>
           generation_inv M s'
           \<and> \<not> ((fixed \<and> int (generation s') < G) \<or> (\<not> fixed \<and> founders_left s' > 1)))"
proof (rule sample_loop.raw_induct [where P = "\<lambda>u check_abort M fixed G s r.
         generation_inv M s \<longrightarrow> (\<forall>s'. r = Inr s' \<longrightarrow>
           generation_inv M s'
           \<and> \<not> ((fixed \<and> int (generation s') < G) \<or> (\<not> fixed \<and> founders_left s' > 1)))",
       OF _ assms])
  fix loop u check_abort M fixed G s r
  assume IH: "\<And>u check_abort M fixed G s r. loop u check_abort M fixed G s = Some r \<Longrightarrow>
         generation_inv M s \<longrightarrow> (\<forall>s'. r = Inr s' \<longrightarrow>
           generation_inv M s'
           \<and> \<not> ((fixed \<and> int (generation s') < G) \<or> (\<not> fixed \<and> founders_left s' > 1)))"
    and body: "(if (fixed \<and> int (generation s) < G) \<or> (\<not> fixed \<and> founders_left s > 1) then
        (case pick_fathers u M 0
                (s\<lparr> new_founders_left := 0, fathers_generation := replicate M None \<rparr>) of
           Inl e \<Rightarrow> Some (Inl e)
         | Inr s1 \<Rightarrow>
             if check_abort (generation s1) then Some (Inl (Rcpp_stop ''Aborted''))
             else
               loop u check_abort M fixed G
                 (s1\<lparr> children_generation := fathers_generation s1,
                      founders_left := new_founders_left s1,
                      generation := generation s1 + 1 \<rparr>))
      else Some (Inr s)) = Some r"
  show "generation_inv M s \<longrightarrow> (\<forall>s'. r = Inr s' \<longrightarrow>
           generation_inv M s'
           \<and> \<not> ((fixed \<and> int (generation s') < G) \<or> (\<not> fixed \<and> founders_left s' > 1)))"
  proof (intro impI allI)
    fix s'
    assume inv: "generation_inv M s" and r: "r = Inr s'"
    show "generation_inv M s'
           \<and> \<not> ((fixed \<and> int (generation s') < G) \<or> (\<not> fixed \<and> founders_left s' > 1))"
    proof (cases "(fixed \<and> int (generation s) < G) \<or> (\<not> fixed \<and> founders_left s > 1)")
      case False
      then have "s' = s" using body r by (auto split: if_splits)
      then show ?thesis using False inv by simp
    next
      case True
      let ?s0 = "s\<lparr> new_founders_left := 0, fathers_generation := replicate M None \<rparr>"
      from True body r obtain s1 where
        p: "pick_fathers u M 0 ?s0 = Inr s1"
        and l: "loop u check_abort M fixed G
                  (s1\<lparr> children_generation := fathers_generation s1,
                       founders_left := new_founders_left s1,
                       generation := generation s1 + 1 \<rparr>) = Some (Inr s')"
        by (auto split: if_splits sum.splits)
      have inv0: "pick_inv M ?s0" using inv by (rule generation_inv_start)
      from generation_inv_child [OF inv]
      have "\<exists>j. 0 \<le> j \<and> j < M \<and> children_generation ?s0 ! j \<noteq> None" by simp
      with pick_fathers_inv [OF inv0 p]
      have inv1: "pick_inv M s1" and pos: "1 \<le> new_founders_left s1" by blast+
      from inv1 pos have "generation_inv M (s1\<lparr> children_generation := fathers_generation s1,
                                 founders_left := new_founders_left s1,
                                 generation := generation s1 + 1 \<rparr>)"
        by (rule generation_inv_next)
      with IH [OF l] show ?thesis by blast
    qed
  qed
qed

lemma sample_loop_inv:
  assumes "sample_loop u check_abort M fixed G s = Some (Inr s')" and "generation_inv M s"
  shows "generation_inv M s'"
    and "\<not> ((fixed \<and> int (generation s') < G) \<or> (\<not> fixed \<and> founders_left s' > 1))"
  using sample_loop_inv_aux [OF assms(1)] assms(2) by blast+

lemma end_generation_update:
  assumes "i < M"
  shows "(map Some [0..<i] @ replicate (M - i) None)[i := Some i]
           = map Some [0..<Suc i] @ replicate (M - Suc i) None"
proof -
  have "replicate (M - i) (None :: nat option) = None # replicate (M - Suc i) None"
    using assms by (metis Suc_diff_Suc replicate_Suc)
  then show ?thesis by (simp add: list_update_append)
qed

lemma init_inv_step:
  assumes "init_inv M i s" and "i < M" and "new_Individual 0 s = Inr (indv, s1)"
  shows "init_inv M (i + 1) (s1\<lparr> end_generation := (end_generation s1)[i := Some indv] \<rparr>)"
proof -
  note ni = new_Individual_Inr [OF assms(3)]
  have len: "length (heap s) = i" using assms(1) by (simp add: init_inv_def)
  have old: "\<forall>r < i. m_generation (heap s ! r) = 0 \<and> m_father (heap s ! r) = None"
    using assms(1) by (simp add: init_inv_def)
  have eg: "end_generation s = map Some [0..<i] @ replicate (M - i) None"
    using assms(1) by (simp add: init_inv_def)
  have pop0: "population_ok s" using assms(1) by (simp add: init_inv_def)
  have pop: "population_ok s1"
    unfolding ni(2) using pop0 by (rule population_ok_new)
  have c2: "\<forall>r < Suc i. m_generation ((heap s @ [Individual (individual_id s) 0]) ! r) = 0
      \<and> m_father ((heap s @ [Individual (individual_id s) 0]) ! r) = None"
    using old len by (auto simp: nth_append Individual_def less_Suc_eq)
  have c3: "population_ok (s1\<lparr> end_generation := (end_generation s1)[i := Some indv] \<rparr>)"
    using pop by (simp add: population_ok_def)
  have c4: "(end_generation s)[i := Some i] = map Some [0..<Suc i] @ replicate (M - Suc i) None"
    unfolding eg using assms(2) by (rule end_generation_update)
  have sel: "heap (s1\<lparr> end_generation := (end_generation s1)[i := Some indv] \<rparr>)
        = heap s @ [Individual (individual_id s) 0]"
    "end_generation (s1\<lparr> end_generation := (end_generation s1)[i := Some indv] \<rparr>)
        = (end_generation s)[i := Some i]"
    using ni(1) len by (simp_all add: ni(2))
  show ?thesis
    unfolding init_inv_def sel
    apply (intro conjI)
       apply (simp add: len)
      apply (simp only: Suc_eq_plus1 [symmetric])
      apply (rule c2)
     apply (rule c3)
    apply (simp only: Suc_eq_plus1 [symmetric])
    apply (rule c4)
    done
qed

lemma create_end_generation_inv:
  assumes "init_inv M i s" and "i \<le> M" and "create_end_generation M i s = Inr s'"
  shows "init_inv M M s'"
  using assms
proof (induction "M - i" arbitrary: i s)
  case 0
  then have "i = M" by simp
  then have "s' = s" using 0(4) by (subst (asm) create_end_generation.simps) simp
  then show ?case using 0 \<open>i = M\<close> by simp
next
  case (Suc n)
  then have i: "i < M" and n: "n = M - (i + 1)" by simp_all
  from i Suc.prems(3) obtain indv s1 where
    a: "new_Individual 0 s = Inr (indv, s1)"
    and r: "create_end_generation M (i + 1)
              (s1\<lparr> end_generation := (end_generation s1)[i := Some indv] \<rparr>) = Inr s'"
    by (subst (asm) create_end_generation.simps) (auto split: sum.splits)
  from init_inv_step [OF Suc.prems(1) i a]
  have "init_inv M (i + 1) (s1\<lparr> end_generation := (end_generation s1)[i := Some indv] \<rparr>)" .
  from Suc.hyps(1) [OF n this _ r] i show ?case by simp
qed

lemma slots_filled_map_Some: "slots_filled (map Some xs) = length xs"
  by (induction xs) (simp_all add: slots_filled_def)

lemma init_inv_generation_inv:
  assumes "init_inv M M s" and "1 \<le> M"
  shows "generation_inv M (s\<lparr> children_generation := end_generation s,
                               fathers_generation := replicate M None,
                               founders_left := int M,
                               generation := 1 \<rparr>)"
proof -
  have len: "length (heap s) = M"
    and old: "\<forall>r < M. m_generation (heap s ! r) = 0 \<and> m_father (heap s ! r) = None"
    and eg: "end_generation s = map Some [0..<M]"
    using assms(1) by (simp_all add: init_inv_def)
  have c1: "links_ok (heap s)" using len old by (simp add: links_ok_def)
  have c2: "population_ok (s\<lparr> children_generation := end_generation s,
                               fathers_generation := replicate M None,
                               founders_left := int M,
                               generation := 1 \<rparr>)"
  proof -
    have "population_ok s" using assms(1) by (simp add: init_inv_def)
    then show ?thesis by (simp add: population_ok_def)
  qed
  have c3: "\<forall>r. Some r \<in> set (map Some [0..<M]) \<longrightarrow> r < M" by auto
  have c4: "\<forall>r < M. Some r \<in> set (map Some [0..<M])" by auto
  let ?s = "s\<lparr> children_generation := end_generation s,
                               fathers_generation := replicate M None,
                               founders_left := int M,
                               generation := 1 \<rparr>"
  have sel: "heap ?s = heap s" "children_generation ?s = map Some [0..<M]"
    "founders_left ?s = int M" "generation ?s = 1"
    by (simp_all add: eg)
  have c5: "\<forall>r. Some r \<in> set (map Some [0..<M]) \<longrightarrow>
      r < length (heap s) \<and> m_generation (heap s ! r) = int 1 - 1"
  proof (intro allI impI)
    fix r assume "Some r \<in> set (map Some [0..<M])"
    then have "r < M" by auto
    then show "r < length (heap s) \<and> m_generation (heap s ! r) = int 1 - 1"
      using old len by simp
  qed
  have c6: "\<forall>r < length (heap s). m_generation (heap s ! r) \<le> int 1 - 1"
    using old len by simp
  have c7: "\<forall>r < length (heap s). m_generation (heap s ! r) = int 1 - 1 \<longrightarrow>
      Some r \<in> set (map Some [0..<M]) \<and> m_father (heap s ! r) = None"
  proof (intro allI impI)
    fix r assume "r < length (heap s)"
    then have r: "r < M" using len by simp
    then have "m_father (heap s ! r) = None" using old by simp
    moreover have "Some r \<in> set (map Some [0..<M])" using r by simp
    ultimately show "Some r \<in> set (map Some [0..<M]) \<and> m_father (heap s ! r) = None"
      by simp
  qed
  show ?thesis
    unfolding generation_inv_def sel
    apply (intro conjI)
           apply simp
          apply (rule c1)
         apply (rule c2)
        apply (rule c5)
       apply (rule c6)
      apply (rule c7)
     apply (simp add: slots_filled_map_Some)
    apply (use assms(2) in simp)
    done
qed

lemma sample_geneology_inv:
  assumes "sample_geneology u check_abort M G = Some (Inr s)"
  shows "generation_inv M s"
    and "\<not> ((G \<noteq> - 1 \<and> int (generation s) < G) \<or> (\<not> G \<noteq> - 1 \<and> founders_left s > 1))"
proof -
  let ?init = "\<lparr> heap = [], population_map = Map.empty, individual_id = 1,
                  end_generation = replicate M None,
                  children_generation = [], fathers_generation = [],
                  founders_left = 0, new_founders_left = 0, generation = 0, draws = 0 \<rparr>"
  from assms have M: "1 < M"
    by (auto simp: sample_geneology_def split: if_splits)
  from assms obtain s0 where
    c: "create_end_generation M 0 ?init = Inr s0"
    and l: "sample_loop u check_abort M (G \<noteq> - 1) G
               (s0\<lparr> children_generation := end_generation s0,
                   fathers_generation := replicate M None,
                   founders_left := int M,
                   generation := 1 \<rparr>) = Some (Inr s)"
    by (auto simp: sample_geneology_def split: if_splits sum.splits)
  have "init_inv M 0 ?init" by (simp add: init_inv_def population_ok_def)
  from create_end_generation_inv [OF this _ c] have "init_inv M M s0" by simp
  from init_inv_generation_inv [OF this] M
  have g: "generation_inv M (s0\<lparr> children_generation := end_generation s0,
                   fathers_generation := replicate M None,
                   founders_left := int M,
                   generation := 1 \<rparr>)" by simp
  from sample_loop_inv [OF l g]
  show "generation_inv M s"
    and "\<not> ((G \<noteq> - 1 \<and> int (generation s) < G) \<or> (\<not> G \<noteq> - 1 \<and> founders_left s > 1))"
    by blast+
qed

text \<open>
  C9: after \<open>sample_geneology\<close> has returned, in either mode, every Individual \<open>x\<close> of
  the population that has a father \<open>f\<close> is one generation below \<open>f\<close> and is an element
  of the children of \<open>f\<close> (and \<open>f\<close> is an Individual of the heap).
\<close>

theorem sampler_father_links:
  assumes "sample_geneology u check_abort M G = Some (Inr s)"
    and "population_map s pid = Some x" and "m_father (heap s ! x) = Some f"
  shows "f < length (heap s) \<and> m_generation (heap s ! f) = m_generation (heap s ! x) + 1
       \<and> x \<in> set (m_children (heap s ! f))"
proof -
  from sample_geneology_inv(1) [OF assms(1)]
  have l: "links_ok (heap s)" and p: "population_ok s"
    by (simp_all add: generation_inv_def)
  from p assms(2) have "x < length (heap s)" by (auto simp: population_ok_def)
  with l assms(3) show ?thesis by (simp add: links_ok_def)
qed

text \<open>
  C7: when \<open>sample_geneology\<close> runs until one founder is left (\<open>generations = -1\<close>) and
  returns, for every random source, the founders count it returns is exactly 1, and the
  final generation (generation index \<open>generations - 1\<close> of the result) consists of exactly
  one Individual of the population, which has no father. (A call that returns normally has
  \<open>population_size > 1\<close>: the function stops otherwise.)
\<close>

theorem sampler_one_founder:
  assumes "sample_geneology u check_abort M (- 1) = Some (Inr s)"
  shows "founders_left s = 1
       \<and> (\<exists>x. x \<in> ran (population_map s)
              \<and> m_generation (heap s ! x) = int (generation s) - 1
              \<and> m_father (heap s ! x) = None
              \<and> (\<forall>y \<in> ran (population_map s).
                    m_generation (heap s ! y) = int (generation s) - 1 \<longrightarrow> y = x))"
proof -
  note inv = sample_geneology_inv [OF assms]
  from inv(2) have "\<not> founders_left s > 1" by simp
  moreover from inv(1) have "1 \<le> founders_left s"
    and count: "founders_left s = int (slots_filled (children_generation s))"
    by (simp_all add: generation_inv_def)
  ultimately have one: "founders_left s = 1" by simp
  with count have "slots_filled (children_generation s) = 1" by simp
  from slots_filled_one [OF this] obtain r where
    r: "Some r \<in> set (children_generation s)"
    and uniq: "\<And>r'. Some r' \<in> set (children_generation s) \<Longrightarrow> r' = r"
    by blast
  from inv(1) have p: "population_ok s"
    and children: "\<And>r. Some r \<in> set (children_generation s) \<Longrightarrow>
           r < length (heap s) \<and> m_generation (heap s ! r) = int (generation s) - 1"
    and last: "\<And>r. r < length (heap s) \<Longrightarrow>
           m_generation (heap s ! r) = int (generation s) - 1 \<Longrightarrow>
           Some r \<in> set (children_generation s) \<and> m_father (heap s ! r) = None"
    by (simp_all add: generation_inv_def)
  from children [OF r] have rv: "r < length (heap s)"
    and rg: "m_generation (heap s ! r) = int (generation s) - 1" by simp_all
  from last [OF rv rg] have rf: "m_father (heap s ! r) = None" by simp
  from p rv have "population_map s (int r + 1) = Some r" by (simp add: population_ok_def)
  then have rin: "r \<in> ran (population_map s)" by (rule ranI)
  have "\<forall>y \<in> ran (population_map s).
          m_generation (heap s ! y) = int (generation s) - 1 \<longrightarrow> y = r"
  proof (intro ballI impI)
    fix y assume "y \<in> ran (population_map s)"
      and yg: "m_generation (heap s ! y) = int (generation s) - 1"
    then have "y < length (heap s)" using p by (auto simp: population_ok_def ran_def)
    from last [OF this yg] have "Some y \<in> set (children_generation s)" by simp
    then show "y = r" by (rule uniq)
  qed
  with one rin rg rf show ?thesis by blast
qed

lemma sample_run:
  "\<exists>s. sample_geneology (\<lambda>n. 1 / 4) (\<lambda>g. False) 2 (- 1) = Some (Inr s)
       \<and> population_map s 1 = Some 0 \<and> m_father (heap s ! 0) = Some 2"
  by (simp add: sample_geneology_def create_end_generation.simps new_Individual_def
      sample_loop.simps pick_fathers.simps father_in_slot_def sample_person_def add_child_def
      set_father_def Let_def numeral_2_eq_2)

theorem sampler_father_links_witness:
  "\<exists>s. sample_geneology (\<lambda>n. 1 / 4) (\<lambda>g. False) 2 (- 1) = Some (Inr s)
       \<and> population_map s 1 = Some 0 \<and> m_father (heap s ! 0) = Some 2
       \<and> 2 < length (heap s) \<and> m_generation (heap s ! 2) = m_generation (heap s ! 0) + 1
       \<and> 0 \<in> set (m_children (heap s ! 2))"
proof -
  from sample_run obtain s where
    run: "sample_geneology (\<lambda>n. 1 / 4) (\<lambda>g. False) 2 (- 1) = Some (Inr s)"
    and x: "population_map s 1 = Some 0" and f: "m_father (heap s ! 0) = Some 2"
    by blast
  from sampler_father_links [OF run x f] run x f show ?thesis by blast
qed

theorem sampler_one_founder_witness:
  "\<exists>s. sample_geneology (\<lambda>n. 1 / 4) (\<lambda>g. False) 2 (- 1) = Some (Inr s)
       \<and> founders_left s = 1
       \<and> (\<exists>x. x \<in> ran (population_map s)
              \<and> m_generation (heap s ! x) = int (generation s) - 1
              \<and> m_father (heap s ! x) = None
              \<and> (\<forall>y \<in> ran (population_map s).
                    m_generation (heap s ! y) = int (generation s) - 1 \<longrightarrow> y = x))"
proof -
  from sample_run obtain s where
    run: "sample_geneology (\<lambda>n. 1 / 4) (\<lambda>g. False) 2 (- 1) = Some (Inr s)"
    by blast
  from sampler_one_founder [OF run] run show ?thesis by blast
qed

section \<open>Properties: the heap under the distance search\<close>

lemma reset_eq_fields:
  assumes "dijkstra_reset y = dijkstra_reset z"
  shows "m_father y = m_father z" "m_children y = m_children z" "m_pid y = m_pid z"
    "m_generation y = m_generation z" "m_pedigree_id y = m_pedigree_id z"
    "m_pedigree y = m_pedigree z"
proof -
  have "m_father (dijkstra_reset y) = m_father (dijkstra_reset z)"
    "m_children (dijkstra_reset y) = m_children (dijkstra_reset z)"
    "m_pid (dijkstra_reset y) = m_pid (dijkstra_reset z)"
    "m_generation (dijkstra_reset y) = m_generation (dijkstra_reset z)"
    "m_pedigree_id (dijkstra_reset y) = m_pedigree_id (dijkstra_reset z)"
    "m_pedigree (dijkstra_reset y) = m_pedigree (dijkstra_reset z)"
    using assms by simp_all
  then show "m_father y = m_father z" "m_children y = m_children z" "m_pid y = m_pid z"
    "m_generation y = m_generation z" "m_pedigree_id y = m_pedigree_id z"
    "m_pedigree y = m_pedigree z"
    by (simp_all add: dijkstra_reset_def)
qed

lemma same_links_fields:
  assumes "same_links st' st"
  shows "length st' = length st" "m_father (st' ! x) = m_father (st ! x)"
    "m_children (st' ! x) = m_children (st ! x)" "m_pid (st' ! x) = m_pid (st ! x)"
    "m_generation (st' ! x) = m_generation (st ! x)"
    "m_pedigree_id (st' ! x) = m_pedigree_id (st ! x)"
    "m_pedigree (st' ! x) = m_pedigree (st ! x)"
  using assms reset_eq_fields [of "st' ! x" "st ! x"] by (simp_all add: same_links_def)

lemma same_links_refl: "same_links st st"
  by (simp add: same_links_def)

lemma same_links_trans: "same_links st2 st1 \<Longrightarrow> same_links st1 st \<Longrightarrow> same_links st2 st"
  by (simp add: same_links_def)

lemma same_links_sym: "same_links st' st \<Longrightarrow> same_links st st'"
  by (simp add: same_links_def)

lemma same_links_update:
  assumes "dijkstra_reset v = dijkstra_reset (st ! i)"
  shows "same_links (st[i := v]) st"
proof -
  have "\<And>x. dijkstra_reset (st[i := v] ! x) = dijkstra_reset (st ! x)"
  proof -
    fix x
    show "dijkstra_reset (st[i := v] ! x) = dijkstra_reset (st ! x)"
    proof (cases "x = i \<and> i < length st")
      case True
      then show ?thesis using assms by simp
    next
      case False
      then show ?thesis by (cases "x = i") (simp_all add: list_update_beyond)
    qed
  qed
  then show ?thesis by (simp add: same_links_def)
qed

lemma same_links_tick: "same_links (st[i := dijkstra_tick_distance m (st ! i)]) st"
  by (rule same_links_update) (simp add: dijkstra_tick_distance_def dijkstra_reset_def)

lemma same_links_mark:
  "same_links (st[i := dijkstra_tick_distance m (dijkstra_mark_visited (st ! i))]) st"
  by (rule same_links_update)
    (simp add: dijkstra_tick_distance_def dijkstra_mark_visited_def dijkstra_reset_def)

lemma same_links_reset: "same_links (st[i := dijkstra_reset (st ! i)]) st"
  by (rule same_links_update) (simp add: dijkstra_reset_def)

lemma same_links_ancestor:
  assumes "same_links st' st"
  shows "ancestor st' n x = ancestor st n x"
  by (induction n) (simp_all add: same_links_fields(2) [OF assms] split: option.splits)

lemma same_links_tree_heap:
  assumes "same_links st' st"
  shows "tree_heap st' = tree_heap st"
  by (simp add: tree_heap_def links_ok_def same_links_fields [OF assms])

lemma ancestor_add:
  "ancestor st (n + m) x = (case ancestor st n x of None \<Rightarrow> None | Some y \<Rightarrow> ancestor st m y)"
  by (induction m) (simp_all split: option.splits)

lemma ancestor_Suc_bottom:
  "ancestor st (Suc n) x = (case m_father (st ! x) of None \<Rightarrow> None | Some f \<Rightarrow> ancestor st n f)"
  using ancestor_add [of st 1 n x] by simp

lemma ancestor_valid:
  assumes "tree_heap st" and "x < length st" and "ancestor st n x = Some y"
  shows "y < length st \<and> m_generation (st ! y) = m_generation (st ! x) + int n"
  using assms(3)
proof (induction n arbitrary: y)
  case 0
  then show ?case using assms(2) by simp
next
  case (Suc n)
  then obtain z where z: "ancestor st n x = Some z" and f: "m_father (st ! z) = Some y"
    by (auto split: option.splits)
  from Suc.IH [OF z] have "z < length st"
    and "m_generation (st ! z) = m_generation (st ! x) + int n" by simp_all
  moreover from assms(1) have "links_ok st" by (simp add: tree_heap_def)
  ultimately show ?case using f by (auto simp: links_ok_def)
qed

lemma ancestor_depth_unique:
  assumes "tree_heap st" and "x < length st"
    and "ancestor st n x = Some y" and "ancestor st m x = Some y"
  shows "n = m"
  using ancestor_valid [OF assms(1,2,3)] ancestor_valid [OF assms(1,2,4)] by simp

lemma siblings_disjoint:
  assumes "tree_heap st" and "x < length st"
    and "ancestor st k x = Some c" and "ancestor st k' x = Some c'"
    and "m_father (st ! c) = Some d" and "m_father (st ! c') = Some d"
  shows "c = c'"
proof -
  from ancestor_valid [OF assms(1,2,3)] have c: "c < length st"
    "m_generation (st ! c) = m_generation (st ! x) + int k" by simp_all
  from ancestor_valid [OF assms(1,2,4)] have c': "c' < length st"
    "m_generation (st ! c') = m_generation (st ! x) + int k'" by simp_all
  from assms(1) have l: "links_ok st" by (simp add: tree_heap_def)
  from l c(1) assms(5) have "m_generation (st ! d) = m_generation (st ! c) + 1"
    by (simp add: links_ok_def)
  moreover from l c'(1) assms(6) have "m_generation (st ! d) = m_generation (st ! c') + 1"
    by (simp add: links_ok_def)
  ultimately have "k = k'" using c(2) c'(2) by simp
  then show ?thesis using assms(3,4) by simp
qed

lemma not_below_lower:
  assumes "tree_heap st" and "x < length st"
    and "m_generation (st ! c) < m_generation (st ! x)"
  shows "ancestor st k x \<noteq> Some c"
proof
  assume "ancestor st k x = Some c"
  from ancestor_valid [OF assms(1,2) this]
  have "m_generation (st ! c) = m_generation (st ! x) + int k" by simp
  then show False using assms(3) by simp
qed

lemma father_generation:
  assumes "tree_heap st" and "c < length st" and "m_father (st ! c) = Some d"
  shows "d < length st" and "m_generation (st ! d) = m_generation (st ! c) + 1"
    and "c \<in> set (m_children (st ! d))"
proof -
  from assms(1) have "links_ok st" by (simp add: tree_heap_def)
  then have "d < length st \<and> m_generation (st ! d) = m_generation (st ! c) + 1
      \<and> c \<in> set (m_children (st ! d))"
    unfolding links_ok_def using assms(2,3) by blast
  then show "d < length st" and "m_generation (st ! d) = m_generation (st ! c) + 1"
    and "c \<in> set (m_children (st ! d))" by simp_all
qed

lemma child_father:
  assumes "tree_heap st" and "d < length st" and "c \<in> set (m_children (st ! d))"
  shows "c < length st" and "m_father (st ! c) = Some d"
proof -
  from assms(1) have "\<forall>f < length st. distinct (m_children (st ! f))
           \<and> (\<forall>c \<in> set (m_children (st ! f)). c < length st \<and> m_father (st ! c) = Some f)"
    by (simp add: tree_heap_def)
  then have "c < length st \<and> m_father (st ! c) = Some d"
    using assms(2,3) by blast
  then show "c < length st" and "m_father (st ! c) = Some d" by simp_all
qed

lemma children_distinct:
  assumes "tree_heap st" and "d < length st"
  shows "distinct (m_children (st ! d))"
  using assms by (simp add: tree_heap_def)

lemma pid_eq_iff:
  assumes "tree_heap st" and "x < length st" and "y < length st"
  shows "m_pid (st ! x) = m_pid (st ! y) \<longleftrightarrow> x = y"
proof -
  from assms(1) have "\<forall>x < length st. \<forall>y < length st.
      m_pid (st ! x) = m_pid (st ! y) \<longrightarrow> x = y"
    by (simp add: tree_heap_def)
  then show ?thesis using assms(2,3) by blast
qed

text \<open>The two cases in which the search returns at once.\<close>

lemma internal_at_this:
  assumes "this < length st"
  shows "meiosis_dist_tree_internal (Suc n) st this this r
           = Some (Inr (st, m_dijkstra_distance (st ! this)))"
  using assms by simp

lemma internal_at_visited:
  assumes "tree_heap st" and "this < length st" and "d < length st" and "d \<noteq> this"
    and "m_dijkstra_visited (st ! d)"
  shows "meiosis_dist_tree_internal (Suc n) st this d r = Some (Inr (st, r))"
  using assms pid_eq_iff [OF assms(1,2,3)] by simp

lemma tick_fields [simp]:
  "m_dijkstra_visited (dijkstra_tick_distance m x) = m_dijkstra_visited x"
  "m_dijkstra_distance (dijkstra_tick_distance m x) = m_dijkstra_distance x + m"
  by (simp_all add: dijkstra_tick_distance_def)

lemma mark_fields [simp]:
  "m_dijkstra_visited (dijkstra_mark_visited x) = True"
  "m_dijkstra_distance (dijkstra_mark_visited x) = m_dijkstra_distance x"
  by (simp_all add: dijkstra_mark_visited_def)

lemma search_frame_refl: "search_frame st st"
  by (simp add: search_frame_def same_links_refl)

lemma search_frame_trans:
  assumes "search_frame st st1" and "search_frame st1 st2"
  shows "search_frame st st2"
proof -
  have l: "length st1 = length st" using assms(1) by (simp add: search_frame_def same_links_def)
  show ?thesis
    using assms l unfolding search_frame_def
    by (auto intro: same_links_trans)
qed

lemma search_frame_tick:
  "search_frame st (st[i := dijkstra_tick_distance m (st ! i)])"
proof -
  have "\<And>x. x < length st \<Longrightarrow> m_dijkstra_visited (st ! x) \<Longrightarrow>
      m_dijkstra_visited (st[i := dijkstra_tick_distance m (st ! i)] ! x)"
    by (case_tac "x = i") simp_all
  then show ?thesis by (simp add: search_frame_def same_links_tick)
qed

lemma search_frame_mark:
  "search_frame st (st[i := dijkstra_tick_distance m (dijkstra_mark_visited (st ! i))])"
proof -
  have "\<And>x. x < length st \<Longrightarrow> m_dijkstra_visited (st ! x) \<Longrightarrow>
      m_dijkstra_visited (st[i := dijkstra_tick_distance m (dijkstra_mark_visited (st ! i))] ! x)"
    by (case_tac "x = i") simp_all
  then show ?thesis by (simp add: search_frame_def same_links_mark)
qed

lemma search_frame_D:
  assumes "search_frame st st'"
  shows "same_links st' st" and "length st' = length st" and "tree_heap st' = tree_heap st"
    and "ancestor st' = ancestor st" and "below st' = below st"
    and "\<And>x. x < length st \<Longrightarrow> m_dijkstra_visited (st ! x) \<Longrightarrow> m_dijkstra_visited (st' ! x)"
proof -
  show l: "same_links st' st" using assms by (simp add: search_frame_def)
  show "length st' = length st" using l by (simp add: same_links_def)
  show "tree_heap st' = tree_heap st" using l by (rule same_links_tree_heap)
  show a: "ancestor st' = ancestor st" using same_links_ancestor [OF l] by (intro ext)
  show "below st' = below st" by (intro ext) (simp add: below_def a)
  show "\<And>x. x < length st \<Longrightarrow> m_dijkstra_visited (st ! x) \<Longrightarrow> m_dijkstra_visited (st' ! x)"
    using assms by (simp add: search_frame_def)
qed

section \<open>Properties: the distance search going down\<close>

lemma below_refl: "below st c c"
  unfolding below_def by (rule exI [of _ 0]) simp

lemma below_up:
  assumes "below st c x" and "m_father (st ! c) = Some d"
  shows "below st d x"
proof -
  from assms(1) obtain k where "ancestor st k x = Some c" by (auto simp: below_def)
  then have "ancestor st (Suc k) x = Some d" using assms(2) by simp
  then show ?thesis unfolding below_def by blast
qed

lemma below_siblings:
  assumes "tree_heap st" and "x < length st" and "below st c x" and "below st c' x"
    and "m_father (st ! c) = Some d" and "m_father (st ! c') = Some d"
  shows "c = c'"
proof -
  from assms(3) obtain k where k: "ancestor st k x = Some c" by (auto simp: below_def)
  from assms(4) obtain k' where k': "ancestor st k' x = Some c'" by (auto simp: below_def)
  show ?thesis by (rule siblings_disjoint [OF assms(1,2) k k' assms(5,6)])
qed

lemma not_below_father:
  assumes "tree_heap st" and "c < length st" and "m_father (st ! c) = Some d"
  shows "\<not> below st c d"
proof -
  note f = father_generation [OF assms]
  have "m_generation (st ! c) < m_generation (st ! d)" using f(2) by simp
  from not_below_lower [OF assms(1) f(1) this] show ?thesis by (simp add: below_def)
qed

lemma search_downD:
  assumes "search_down n" and "tree_heap st" and "a < length st" and "d < length st"
    and "m_father (st ! d) = Some f" and "m_dijkstra_visited (st ! f)" and "f \<noteq> a"
    and "\<forall>x < length st. below st d x \<longrightarrow>
              \<not> m_dijkstra_visited (st ! x) \<and> (x \<noteq> d \<longrightarrow> m_dijkstra_distance (st ! x) = 0)"
    and "meiosis_dist_tree_internal n st a d r = Some res"
  shows "\<exists>st' r'. res = Inr (st', r') \<and> search_frame st st'
           \<and> (\<forall>x < length st. x \<noteq> f \<and> \<not> below st d x \<longrightarrow> st' ! x = st ! x)
           \<and> (\<forall>k. ancestor st k a = Some d \<longrightarrow> r' = m_dijkstra_distance (st ! d) + int k)
           \<and> (\<not> below st d a \<longrightarrow> r' = r)"
proof -
  from assms(1) have "tree_heap st \<and> a < length st \<and> d < length st
        \<and> m_father (st ! d) = Some f \<and> m_dijkstra_visited (st ! f) \<and> f \<noteq> a
        \<and> (\<forall>x < length st. below st d x \<longrightarrow>
              \<not> m_dijkstra_visited (st ! x) \<and> (x \<noteq> d \<longrightarrow> m_dijkstra_distance (st ! x) = 0))
        \<and> meiosis_dist_tree_internal n st a d r = Some res \<longrightarrow>
        (\<exists>st' r'. res = Inr (st', r') \<and> search_frame st st'
           \<and> (\<forall>x < length st. x \<noteq> f \<and> \<not> below st d x \<longrightarrow> st' ! x = st ! x)
           \<and> (\<forall>k. ancestor st k a = Some d \<longrightarrow> r' = m_dijkstra_distance (st ! d) + int k)
           \<and> (\<not> below st d a \<longrightarrow> r' = r))"
    unfolding search_down_def by (elim allE)
  then show ?thesis using assms(2-) by (elim impE) (intro conjI, assumption+)
qed

lemma children_loop:
  assumes D: "search_down n"
  shows "tree_heap st \<Longrightarrow> a < length st \<Longrightarrow> d < length st \<Longrightarrow> m_dijkstra_visited (st ! d) \<Longrightarrow>
     d \<noteq> a \<Longrightarrow> distinct cs \<Longrightarrow>
     \<forall>c \<in> set cs. c < length st \<and> m_father (st ! c) = Some d
              \<and> ((m_dijkstra_visited (st ! c) \<and> c \<noteq> a)
                  \<or> (\<forall>x < length st. below st c x \<longrightarrow> clean st x)) \<Longrightarrow>
     meiosis_dist_tree_children n st a m cs r = Some res \<Longrightarrow>
     \<exists>st' r'. res = Inr (st', r') \<and> search_frame st st'
           \<and> (\<forall>x < length st. x \<noteq> d \<and> x \<notin> set cs
                 \<and> (\<forall>c \<in> set cs. \<not> m_dijkstra_visited (st ! c) \<longrightarrow> \<not> below st c x) \<longrightarrow>
                 st' ! x = st ! x)
           \<and> (\<forall>c \<in> set cs. \<forall>k. \<not> m_dijkstra_visited (st ! c) \<and> ancestor st k a = Some c \<longrightarrow>
                 r' = m + int k)
           \<and> ((\<forall>c \<in> set cs. \<not> m_dijkstra_visited (st ! c) \<longrightarrow> \<not> below st c a) \<longrightarrow> r' = r)"
proof (induction cs arbitrary: st r res)
  case Nil
  then have "res = Inr (st, r)" by simp
  then show ?case by (simp add: search_frame_refl)
next
  case (Cons c cs)
  note wf = Cons.prems(1) and av = Cons.prems(2) and dv = Cons.prems(3)
    and vd = Cons.prems(4) and da = Cons.prems(5) and dc = Cons.prems(6)
    and ch = Cons.prems(7) and run = Cons.prems(8)
  from ch have cv: "c < length st" and cf: "m_father (st ! c) = Some d"
    and cstat: "(m_dijkstra_visited (st ! c) \<and> c \<noteq> a)
                  \<or> (\<forall>x < length st. below st c x \<longrightarrow> clean st x)"
    by simp_all
  from dc have cnotin: "c \<notin> set cs" and dcs: "distinct cs" by simp_all
  define st1 where "st1 = st[c := dijkstra_tick_distance m (st ! c)]"
  have f1: "search_frame st st1" unfolding st1_def by (rule search_frame_tick)
  note F1 = search_frame_D [OF f1]
  have nth1: "\<And>x. x \<noteq> c \<Longrightarrow> st1 ! x = st ! x" by (simp add: st1_def)
  have nth1c: "st1 ! c = dijkstra_tick_distance m (st ! c)" using cv by (simp add: st1_def)
  from run cv obtain res1 where
    i1: "meiosis_dist_tree_internal n st1 a c r = Some res1"
    and run': "(case res1 of Inl e \<Rightarrow> Some (Inl e)
                | Inr (st', r2) \<Rightarrow> meiosis_dist_tree_children n st' a m cs r2) = Some res"
    by (auto simp: st1_def split: option.splits)
  have step: "\<exists>st2 r2. res1 = Inr (st2, r2) \<and> search_frame st1 st2
      \<and> (\<forall>x < length st. x \<noteq> d \<and> x \<noteq> c \<and> (\<not> m_dijkstra_visited (st ! c) \<longrightarrow> \<not> below st c x)
            \<longrightarrow> st2 ! x = st ! x)
      \<and> (\<forall>k. \<not> m_dijkstra_visited (st ! c) \<and> ancestor st k a = Some c \<longrightarrow> r2 = m + int k)
      \<and> ((\<not> m_dijkstra_visited (st ! c) \<longrightarrow> \<not> below st c a) \<longrightarrow> r2 = r)"
  proof (cases "m_dijkstra_visited (st ! c) \<and> c \<noteq> a")
    case True
    then have v1: "m_dijkstra_visited (st1 ! c)" by (simp add: nth1c)
    from i1 obtain n' where n: "n = Suc n'" by (cases n) simp_all
    have "tree_heap st1" using wf F1(3) by simp
    from internal_at_visited [OF this _ _ _ v1, of a n' r] av cv True i1
    have "res1 = Inr (st1, r)" by (simp add: n F1(2))
    then show ?thesis using True nth1 by (simp add: search_frame_refl)
  next
    case False
    with cstat have cl: "\<forall>x < length st. below st c x \<longrightarrow> clean st x" by blast
    then have "clean st c" using cv below_refl by blast
    then have nv: "\<not> m_dijkstra_visited (st ! c)" and d0: "m_dijkstra_distance (st ! c) = 0"
      by (simp_all add: clean_def)
    have cd: "c \<noteq> d" using nv vd by auto
    have sub: "\<forall>x < length st1. below st1 c x \<longrightarrow>
              \<not> m_dijkstra_visited (st1 ! x) \<and> (x \<noteq> c \<longrightarrow> m_dijkstra_distance (st1 ! x) = 0)"
    proof (intro allI impI)
      fix x assume "x < length st1" and "below st1 c x"
      then have x: "x < length st" and b: "below st c x" by (simp_all add: F1)
      from cl x b have c: "clean st x" by blast
      show "\<not> m_dijkstra_visited (st1 ! x) \<and> (x \<noteq> c \<longrightarrow> m_dijkstra_distance (st1 ! x) = 0)"
      proof (cases "x = c")
        case True
        then show ?thesis using nv by (simp add: nth1c)
      next
        case False
        then show ?thesis using c by (simp add: nth1 clean_def)
      qed
    qed
    have "tree_heap st1" using wf F1(3) by simp
    moreover have "a < length st1" "c < length st1" using av cv by (simp_all add: F1(2))
    moreover have "m_father (st1 ! c) = Some d"
      using cf same_links_fields(2) [OF F1(1)] by simp
    moreover have "m_dijkstra_visited (st1 ! d)" using vd cd by (simp add: nth1)
    ultimately have "\<exists>st' r'. res1 = Inr (st', r') \<and> search_frame st1 st'
           \<and> (\<forall>x < length st1. x \<noteq> d \<and> \<not> below st1 c x \<longrightarrow> st' ! x = st1 ! x)
           \<and> (\<forall>k. ancestor st1 k a = Some c \<longrightarrow> r' = m_dijkstra_distance (st1 ! c) + int k)
           \<and> (\<not> below st1 c a \<longrightarrow> r' = r)"
      using da sub i1 by (intro search_downD [OF D])
    then obtain st2 r2 where r1: "res1 = Inr (st2, r2)" and f2: "search_frame st1 st2"
      and fr: "\<forall>x < length st1. x \<noteq> d \<and> \<not> below st1 c x \<longrightarrow> st2 ! x = st1 ! x"
      and d1: "\<forall>k. ancestor st1 k a = Some c \<longrightarrow> r2 = m_dijkstra_distance (st1 ! c) + int k"
      and d2: "\<not> below st1 c a \<longrightarrow> r2 = r"
      by (elim exE conjE)
    have "\<forall>x < length st. x \<noteq> d \<and> x \<noteq> c \<and> (\<not> m_dijkstra_visited (st ! c) \<longrightarrow> \<not> below st c x)
            \<longrightarrow> st2 ! x = st ! x"
      using fr nv by (simp add: F1 nth1)
    moreover have "\<forall>k. \<not> m_dijkstra_visited (st ! c) \<and> ancestor st k a = Some c \<longrightarrow> r2 = m + int k"
      using d1 d0 by (simp add: F1 nth1c)
    moreover have "(\<not> m_dijkstra_visited (st ! c) \<longrightarrow> \<not> below st c a) \<longrightarrow> r2 = r"
      using d2 nv by (simp add: F1)
    ultimately show ?thesis using r1 f2 by blast
  qed
  then obtain st2 r2 where r1: "res1 = Inr (st2, r2)" and f2: "search_frame st1 st2"
    and P3': "\<forall>x < length st. x \<noteq> d \<and> x \<noteq> c \<and> (\<not> m_dijkstra_visited (st ! c) \<longrightarrow> \<not> below st c x)
            \<longrightarrow> st2 ! x = st ! x"
    and P4': "\<forall>k. \<not> m_dijkstra_visited (st ! c) \<and> ancestor st k a = Some c \<longrightarrow> r2 = m + int k"
    and P5': "(\<not> m_dijkstra_visited (st ! c) \<longrightarrow> \<not> below st c a) \<longrightarrow> r2 = r"
    by (elim exE conjE)
  have P3: "\<And>x. x < length st \<Longrightarrow> x \<noteq> d \<Longrightarrow> x \<noteq> c \<Longrightarrow>
               (\<not> m_dijkstra_visited (st ! c) \<longrightarrow> \<not> below st c x) \<Longrightarrow> st2 ! x = st ! x"
    using P3' by simp
  have P4: "\<And>k. \<not> m_dijkstra_visited (st ! c) \<Longrightarrow> ancestor st k a = Some c \<Longrightarrow> r2 = m + int k"
    using P4' by simp
  have P5: "(\<not> m_dijkstra_visited (st ! c) \<longrightarrow> \<not> below st c a) \<Longrightarrow> r2 = r"
    using P5' by simp
  have f12: "search_frame st st2" using f1 f2 by (rule search_frame_trans)
  note F2 = search_frame_D [OF f12]
  from run' r1 have run2: "meiosis_dist_tree_children n st2 a m cs r2 = Some res" by simp
  have keep: "\<And>c' x. c' \<in> set cs \<Longrightarrow> x < length st \<Longrightarrow> below st c' x \<Longrightarrow> st2 ! x = st ! x"
  proof -
    fix c' x assume c': "c' \<in> set cs" and x: "x < length st" and b: "below st c' x"
    from ch c' have c'v: "c' < length st" and c'f: "m_father (st ! c') = Some d" by simp_all
    have ne: "c' \<noteq> c" using c' cnotin by auto
    have "x \<noteq> d" using not_below_father [OF wf c'v c'f] b by auto
    moreover have "\<not> below st c x" using below_siblings [OF wf x _ b cf c'f] ne by auto
    moreover have "x \<noteq> c" using below_siblings [OF wf cv below_refl _ cf c'f] b ne by auto
    ultimately show "st2 ! x = st ! x" using P3 x by blast
  qed
  have ch2: "\<forall>c' \<in> set cs. c' < length st2 \<and> m_father (st2 ! c') = Some d
              \<and> ((m_dijkstra_visited (st2 ! c') \<and> c' \<noteq> a)
                  \<or> (\<forall>x < length st2. below st2 c' x \<longrightarrow> clean st2 x))"
  proof
    fix c' assume c': "c' \<in> set cs"
    from ch c' have c'v: "c' < length st" and c'f: "m_father (st ! c') = Some d"
      and stat: "(m_dijkstra_visited (st ! c') \<and> c' \<noteq> a)
                  \<or> (\<forall>x < length st. below st c' x \<longrightarrow> clean st x)" by simp_all
    have "(m_dijkstra_visited (st2 ! c') \<and> c' \<noteq> a)
                  \<or> (\<forall>x < length st2. below st2 c' x \<longrightarrow> clean st2 x)"
    proof (cases "m_dijkstra_visited (st ! c') \<and> c' \<noteq> a")
      case True
      then show ?thesis using F2(6) [OF c'v] by simp
    next
      case False
      with stat have cl: "\<forall>x < length st. below st c' x \<longrightarrow> clean st x" by blast
      have "\<forall>x < length st2. below st2 c' x \<longrightarrow> clean st2 x"
      proof (intro allI impI)
        fix x assume "x < length st2" and "below st2 c' x"
        then have x: "x < length st" and b: "below st c' x" by (simp_all add: F2)
        from keep [OF c' x b] cl x b show "clean st2 x" by (simp add: clean_def)
      qed
      then show ?thesis by simp
    qed
    then show "c' < length st2 \<and> m_father (st2 ! c') = Some d
              \<and> ((m_dijkstra_visited (st2 ! c') \<and> c' \<noteq> a)
                  \<or> (\<forall>x < length st2. below st2 c' x \<longrightarrow> clean st2 x))"
      using c'v c'f same_links_fields(2) [OF F2(1)] by (simp add: F2(2))
  qed
  have "tree_heap st2" using wf F2(3) by simp
  moreover have "a < length st2" "d < length st2" using av dv by (simp_all add: F2(2))
  moreover have "m_dijkstra_visited (st2 ! d)" using F2(6) [OF dv vd] .
  ultimately have "\<exists>st' r'. res = Inr (st', r') \<and> search_frame st2 st'
           \<and> (\<forall>x < length st2. x \<noteq> d \<and> x \<notin> set cs
                 \<and> (\<forall>c \<in> set cs. \<not> m_dijkstra_visited (st2 ! c) \<longrightarrow> \<not> below st2 c x) \<longrightarrow>
                 st' ! x = st2 ! x)
           \<and> (\<forall>c \<in> set cs. \<forall>k. \<not> m_dijkstra_visited (st2 ! c) \<and> ancestor st2 k a = Some c \<longrightarrow>
                 r' = m + int k)
           \<and> ((\<forall>c \<in> set cs. \<not> m_dijkstra_visited (st2 ! c) \<longrightarrow> \<not> below st2 c a) \<longrightarrow> r' = r2)"
    using da dcs ch2 run2 by (intro Cons.IH)
  then obtain st' r' where res: "res = Inr (st', r')" and f3: "search_frame st2 st'"
    and fr3': "\<forall>x < length st2. x \<noteq> d \<and> x \<notin> set cs
                 \<and> (\<forall>c \<in> set cs. \<not> m_dijkstra_visited (st2 ! c) \<longrightarrow> \<not> below st2 c x) \<longrightarrow>
                 st' ! x = st2 ! x"
    and d13': "\<forall>c \<in> set cs. \<forall>k. \<not> m_dijkstra_visited (st2 ! c) \<and> ancestor st2 k a = Some c \<longrightarrow>
                 r' = m + int k"
    and d23': "(\<forall>c \<in> set cs. \<not> m_dijkstra_visited (st2 ! c) \<longrightarrow> \<not> below st2 c a) \<longrightarrow> r' = r2"
    by (elim exE conjE)
  have fr3: "\<And>x. x < length st \<Longrightarrow> x \<noteq> d \<Longrightarrow> x \<notin> set cs \<Longrightarrow>
                 (\<forall>c \<in> set cs. \<not> m_dijkstra_visited (st2 ! c) \<longrightarrow> \<not> below st c x) \<Longrightarrow>
                 st' ! x = st2 ! x"
    using fr3' unfolding F2(2) F2(5) by simp
  have d13: "\<And>c' k. c' \<in> set cs \<Longrightarrow> \<not> m_dijkstra_visited (st2 ! c') \<Longrightarrow>
                 ancestor st k a = Some c' \<Longrightarrow> r' = m + int k"
    using d13' unfolding F2(4) by simp
  have d23: "(\<forall>c \<in> set cs. \<not> m_dijkstra_visited (st2 ! c) \<longrightarrow> \<not> below st c a) \<Longrightarrow> r' = r2"
    using d23' unfolding F2(5) by (rule mp)
  have mono2: "\<And>c'. c' \<in> set cs \<Longrightarrow> \<not> m_dijkstra_visited (st2 ! c') \<Longrightarrow>
                 \<not> m_dijkstra_visited (st ! c')"
  proof -
    fix c' assume c': "c' \<in> set cs" and nv: "\<not> m_dijkstra_visited (st2 ! c')"
    from ch c' have "c' < length st" by simp
    from F2(6) [OF this] nv show "\<not> m_dijkstra_visited (st ! c')" by blast
  qed
  have c1: "search_frame st st'" using f12 f3 by (rule search_frame_trans)
  have c2: "\<forall>x < length st. x \<noteq> d \<and> x \<notin> set (c # cs)
                 \<and> (\<forall>c' \<in> set (c # cs). \<not> m_dijkstra_visited (st ! c') \<longrightarrow> \<not> below st c' x) \<longrightarrow>
                 st' ! x = st ! x"
  proof (intro allI impI)
    fix x assume x: "x < length st"
      and h: "x \<noteq> d \<and> x \<notin> set (c # cs)
                 \<and> (\<forall>c' \<in> set (c # cs). \<not> m_dijkstra_visited (st ! c') \<longrightarrow> \<not> below st c' x)"
    then have "\<forall>c' \<in> set cs. \<not> m_dijkstra_visited (st2 ! c') \<longrightarrow> \<not> below st c' x"
      using mono2 by auto
    with fr3 [OF x] h have "st' ! x = st2 ! x" by simp
    moreover have "st2 ! x = st ! x" using P3 [OF x] h by simp
    ultimately show "st' ! x = st ! x" by simp
  qed
  have c3: "\<forall>c' \<in> set (c # cs). \<forall>k. \<not> m_dijkstra_visited (st ! c') \<and> ancestor st k a = Some c' \<longrightarrow>
                 r' = m + int k"
  proof (intro ballI allI impI)
    fix c' k assume c': "c' \<in> set (c # cs)"
      and h: "\<not> m_dijkstra_visited (st ! c') \<and> ancestor st k a = Some c'"
    show "r' = m + int k"
    proof (cases "c' = c")
      case True
      with h P4 have r2: "r2 = m + int k" by simp
      have "\<forall>c'' \<in> set cs. \<not> m_dijkstra_visited (st2 ! c'') \<longrightarrow> \<not> below st c'' a"
      proof (intro ballI impI)
        fix c'' assume c'': "c'' \<in> set cs"
        from ch c'' have c''f: "m_father (st ! c'') = Some d" by simp
        have "below st c a" using h True by (auto simp: below_def)
        then show "\<not> below st c'' a"
          using below_siblings [OF wf av _ _ cf c''f] c'' cnotin by auto
      qed
      from d23 [OF this] r2 show ?thesis by simp
    next
      case False
      then have c'in: "c' \<in> set cs" using c' by simp
      from ch c'in h have c'v: "c' < length st"
        and cl: "\<forall>x < length st. below st c' x \<longrightarrow> clean st x" by auto
      have "st2 ! c' = st ! c'" using keep [OF c'in c'v below_refl] .
      then have "\<not> m_dijkstra_visited (st2 ! c')" using h by simp
      from d13 [OF c'in this] h show ?thesis by simp
    qed
  qed
  have c4: "(\<forall>c' \<in> set (c # cs). \<not> m_dijkstra_visited (st ! c') \<longrightarrow> \<not> below st c' a) \<longrightarrow> r' = r"
  proof
    assume h: "\<forall>c' \<in> set (c # cs). \<not> m_dijkstra_visited (st ! c') \<longrightarrow> \<not> below st c' a"
    then have "r2 = r" using P5 by simp
    moreover have "\<forall>c' \<in> set cs. \<not> m_dijkstra_visited (st2 ! c') \<longrightarrow> \<not> below st c' a"
      using h mono2 by auto
    from d23 [OF this] have "r' = r2" .
    ultimately show "r' = r" by simp
  qed
  from res c1 c2 c3 c4 show ?case by blast
qed

lemma search_down_Suc:
  assumes D: "search_down n"
  shows "search_down (Suc n)"
  unfolding search_down_def
proof (intro allI impI)
  fix st a d f r res
  assume h: "tree_heap st \<and> a < length st \<and> d < length st
        \<and> m_father (st ! d) = Some f \<and> m_dijkstra_visited (st ! f) \<and> f \<noteq> a
        \<and> (\<forall>x < length st. below st d x \<longrightarrow>
              \<not> m_dijkstra_visited (st ! x) \<and> (x \<noteq> d \<longrightarrow> m_dijkstra_distance (st ! x) = 0))
        \<and> meiosis_dist_tree_internal (Suc n) st a d r = Some res"
  then have wf: "tree_heap st" and av: "a < length st" and dv: "d < length st"
    and df: "m_father (st ! d) = Some f" and vf: "m_dijkstra_visited (st ! f)" and fa: "f \<noteq> a"
    and sub: "\<forall>x < length st. below st d x \<longrightarrow>
              \<not> m_dijkstra_visited (st ! x) \<and> (x \<noteq> d \<longrightarrow> m_dijkstra_distance (st ! x) = 0)"
    and run: "meiosis_dist_tree_internal (Suc n) st a d r = Some res"
    by blast+
  note fg = father_generation [OF wf dv df]
  have nvd: "\<not> m_dijkstra_visited (st ! d)" using sub dv below_refl by blast
  have fd: "f \<noteq> d" using vf nvd by auto
  show "\<exists>st' r'. res = Inr (st', r') \<and> search_frame st st'
           \<and> (\<forall>x < length st. x \<noteq> f \<and> \<not> below st d x \<longrightarrow> st' ! x = st ! x)
           \<and> (\<forall>k. ancestor st k a = Some d \<longrightarrow> r' = m_dijkstra_distance (st ! d) + int k)
           \<and> (\<not> below st d a \<longrightarrow> r' = r)"
  proof (cases "d = a")
    case True
    then have res: "res = Inr (st, m_dijkstra_distance (st ! d))"
      using run internal_at_this [OF av, where n = n and r = r] by simp
    have "\<forall>k. ancestor st k a = Some d \<longrightarrow> k = 0"
    proof (intro allI impI)
      fix k assume "ancestor st k a = Some d"
      moreover have "ancestor st 0 a = Some d" using True by simp
      ultimately show "k = 0" using ancestor_depth_unique [OF wf av] by blast
    qed
    moreover have "below st d a" using True below_refl by simp
    ultimately show ?thesis using res search_frame_refl by auto
  next
    case False
    then have pid: "m_pid (st ! a) \<noteq> m_pid (st ! d)" using pid_eq_iff [OF wf av dv] by simp
    define m where "m = m_dijkstra_distance (st ! d) + 1"
    define st1 where "st1 = st[d := dijkstra_tick_distance 1 (dijkstra_mark_visited (st ! d))]"
    define st2 where "st2 = st1[f := dijkstra_tick_distance m (st1 ! f)]"
    have f1: "search_frame st st1" unfolding st1_def by (rule search_frame_mark)
    have f12: "search_frame st1 st2" unfolding st2_def by (rule search_frame_tick)
    have f2: "search_frame st st2" using f1 f12 by (rule search_frame_trans)
    note F1 = search_frame_D [OF f1] and F2 = search_frame_D [OF f2]
    have nth1d: "st1 ! d = dijkstra_tick_distance 1 (dijkstra_mark_visited (st ! d))"
      using dv by (simp add: st1_def)
    have m1: "m_dijkstra_distance (st1 ! d) = m" by (simp add: nth1d m_def)
    have f1f: "m_father (st1 ! d) = Some f" using df same_links_fields(2) [OF F1(1)] by simp
    have nth2: "\<And>x. x \<noteq> d \<Longrightarrow> x \<noteq> f \<Longrightarrow> st2 ! x = st ! x" by (simp add: st2_def st1_def)
    have nth2d: "st2 ! d = st1 ! d" using fd by (simp add: st2_def)
    have v2d: "m_dijkstra_visited (st2 ! d)" by (simp add: nth2d nth1d)
    have v2f: "m_dijkstra_visited (st2 ! f)" using F2(6) [OF fg(1) vf] .
    have wf2: "tree_heap st2" using wf F2(3) by simp
    have l1: "length st1 = length st" using F1(2) .
    from run pid av dv have run0:
      "(case meiosis_dist_tree_internal n st2 a f r of
          None \<Rightarrow> None
        | Some (Inl e) \<Rightarrow> Some (Inl e)
        | Some (Inr (st3, r3)) \<Rightarrow>
            meiosis_dist_tree_children n st3 a (m_dijkstra_distance (st1 ! d))
              (m_children (st3 ! d)) r3) = Some res"
      using nvd f1f fg(1) m1 by (simp add: Let_def st1_def [symmetric] l1 st2_def [symmetric])
    have run1:
      "(case meiosis_dist_tree_internal n st2 a f r of
          None \<Rightarrow> None
        | Some (Inl e) \<Rightarrow> Some (Inl e)
        | Some (Inr (st3, r3)) \<Rightarrow>
            meiosis_dist_tree_children n st3 a m (m_children (st3 ! d)) r3) = Some res"
      using run0 unfolding m1 .
    then obtain n' where n: "n = Suc n'" by (cases n) simp_all
    have "meiosis_dist_tree_internal n st2 a f r = Some (Inr (st2, r))"
      unfolding n using wf2 _ _ fa v2f
      by (rule internal_at_visited) (simp_all add: F2(2) av fg(1))
    with run1 have run2:
      "meiosis_dist_tree_children n st2 a m (m_children (st2 ! d)) r = Some res" by simp
    define cs where "cs = m_children (st ! d)"
    have cs2: "m_children (st2 ! d) = cs" using same_links_fields(3) [OF F2(1)] by (simp add: cs_def)
    have dcs: "distinct cs" unfolding cs_def by (rule children_distinct [OF wf dv])
    have child: "\<And>c. c \<in> set cs \<Longrightarrow> c < length st \<and> m_father (st ! c) = Some d"
      unfolding cs_def using child_father [OF wf dv] by blast
    have inner: "\<And>c x. c \<in> set cs \<Longrightarrow> x < length st \<Longrightarrow> below st c x \<Longrightarrow>
        clean st x \<and> st2 ! x = st ! x"
    proof -
      fix c x assume c: "c \<in> set cs" and x: "x < length st" and b: "below st c x"
      from child [OF c] have cv: "c < length st" and cf: "m_father (st ! c) = Some d" by simp_all
      have bd: "below st d x" using b cf by (rule below_up)
      have xd: "x \<noteq> d" using not_below_father [OF wf cv cf] b by auto
      have xf: "x \<noteq> f" using not_below_father [OF wf dv df] bd by auto
      from sub x bd xd have "clean st x" by (simp add: clean_def)
      then show "clean st x \<and> st2 ! x = st ! x" using nth2 [OF xd xf] by simp
    qed
    have ch: "\<forall>c \<in> set cs. c < length st2 \<and> m_father (st2 ! c) = Some d
              \<and> ((m_dijkstra_visited (st2 ! c) \<and> c \<noteq> a)
                  \<or> (\<forall>x < length st2. below st2 c x \<longrightarrow> clean st2 x))"
    proof
      fix c assume c: "c \<in> set cs"
      have "\<forall>x < length st2. below st2 c x \<longrightarrow> clean st2 x"
        using inner [OF c] by (simp add: F2(2) F2(5) clean_def)
      then show "c < length st2 \<and> m_father (st2 ! c) = Some d
              \<and> ((m_dijkstra_visited (st2 ! c) \<and> c \<noteq> a)
                  \<or> (\<forall>x < length st2. below st2 c x \<longrightarrow> clean st2 x))"
        using child [OF c] same_links_fields(2) [OF F2(1)] by (simp add: F2(2))
    qed
    have "\<exists>st' r'. res = Inr (st', r') \<and> search_frame st2 st'
           \<and> (\<forall>x < length st2. x \<noteq> d \<and> x \<notin> set cs
                 \<and> (\<forall>c \<in> set cs. \<not> m_dijkstra_visited (st2 ! c) \<longrightarrow> \<not> below st2 c x) \<longrightarrow>
                 st' ! x = st2 ! x)
           \<and> (\<forall>c \<in> set cs. \<forall>k. \<not> m_dijkstra_visited (st2 ! c) \<and> ancestor st2 k a = Some c \<longrightarrow>
                 r' = m + int k)
           \<and> ((\<forall>c \<in> set cs. \<not> m_dijkstra_visited (st2 ! c) \<longrightarrow> \<not> below st2 c a) \<longrightarrow> r' = r)"
      using wf2 _ _ v2d False dcs ch run2 [unfolded cs2]
      by (rule children_loop [OF D]) (simp_all add: F2(2) av dv)
    then obtain st' r' where res: "res = Inr (st', r')" and f3: "search_frame st2 st'"
      and fr': "\<forall>x < length st2. x \<noteq> d \<and> x \<notin> set cs
                 \<and> (\<forall>c \<in> set cs. \<not> m_dijkstra_visited (st2 ! c) \<longrightarrow> \<not> below st2 c x) \<longrightarrow>
                 st' ! x = st2 ! x"
      and d1': "\<forall>c \<in> set cs. \<forall>k. \<not> m_dijkstra_visited (st2 ! c) \<and> ancestor st2 k a = Some c \<longrightarrow>
                 r' = m + int k"
      and d2': "(\<forall>c \<in> set cs. \<not> m_dijkstra_visited (st2 ! c) \<longrightarrow> \<not> below st2 c a) \<longrightarrow> r' = r"
      by (elim exE conjE)
    have c1: "search_frame st st'" using f2 f3 by (rule search_frame_trans)
    have c2: "\<forall>x < length st. x \<noteq> f \<and> \<not> below st d x \<longrightarrow> st' ! x = st ! x"
    proof (intro allI impI)
      fix x assume x: "x < length st" and h: "x \<noteq> f \<and> \<not> below st d x"
      then have xd: "x \<noteq> d" using below_refl by auto
      have nb: "\<And>c. c \<in> set cs \<Longrightarrow> \<not> below st c x"
        using child below_up h by blast
      then have "x \<notin> set cs" using below_refl by blast
      with fr' x xd nb have "st' ! x = st2 ! x" by (simp add: F2(2) F2(5))
      then show "st' ! x = st ! x" using nth2 [OF xd] h by simp
    qed
    have c3: "\<forall>k. ancestor st k a = Some d \<longrightarrow> r' = m_dijkstra_distance (st ! d) + int k"
    proof (intro allI impI)
      fix k assume k: "ancestor st k a = Some d"
      then obtain k' where k': "k = Suc k'" using False by (cases k) simp_all
      with k obtain c where c: "ancestor st k' a = Some c" and cf: "m_father (st ! c) = Some d"
        by (auto split: option.splits)
      from ancestor_valid [OF wf av c] have cv: "c < length st" by simp
      from father_generation(3) [OF wf cv cf] have cin: "c \<in> set cs" by (simp add: cs_def)
      from inner [OF cin cv below_refl] have "\<not> m_dijkstra_visited (st2 ! c)"
        by (simp add: clean_def)
      with d1' cin c have "r' = m + int k'" by (simp add: F2(4))
      then show "r' = m_dijkstra_distance (st ! d) + int k" by (simp add: m_def k')
    qed
    have c4: "\<not> below st d a \<longrightarrow> r' = r"
    proof
      assume nb: "\<not> below st d a"
      have "\<forall>c \<in> set cs. \<not> m_dijkstra_visited (st2 ! c) \<longrightarrow> \<not> below st2 c a"
        using child below_up nb by (auto simp: F2(5))
      with d2' show "r' = r" by (rule mp)
    qed
    from res c1 c2 c3 c4 show ?thesis by blast
  qed
qed

lemma search_down_all: "search_down n"
proof (induction n)
  case 0
  show ?case unfolding search_down_def by simp
next
  case (Suc n)
  then show ?case by (rule search_down_Suc)
qed

section \<open>Properties: the distance search going up\<close>

lemmas children_loop_all = children_loop [OF search_down_all]

lemma meet_refl: "meet st a a 0 0"
  by (simp add: meet_def)

lemma meet_self:
  assumes "tree_heap st" and "a < length st" and "meet st a a i j"
  shows "i = 0 \<and> j = 0"
proof -
  from assms(3) obtain t where t: "ancestor st i a = Some t" "ancestor st j a = Some t"
    by (auto simp: meet_def)
  from ancestor_depth_unique [OF assms(1,2) t] have ij: "i = j" .
  with assms(3) have "\<not> (0 < i \<and> 0 < j)" by (auto simp: meet_def)
  with ij show ?thesis by simp
qed

lemma search_upD:
  assumes "search_up n" and "tree_heap st" and "a < length st" and "d < length st"
    and "\<not> m_dijkstra_visited (st ! d)"
    and "\<forall>c. co = Some c \<longrightarrow>
              c < length st \<and> m_father (st ! c) = Some d \<and> m_dijkstra_visited (st ! c) \<and> c \<noteq> a"
    and "\<forall>x < length st. \<forall>i j t. x \<noteq> d \<and> ancestor st j d = Some t \<and> ancestor st i x = Some t
              \<and> (\<forall>c. co = Some c \<longrightarrow> \<not> below st c x) \<longrightarrow> clean st x"
    and "meiosis_dist_tree_internal n st a d r = Some res"
  shows "\<exists>st' r'. res = Inr (st', r') \<and> search_frame st st'
           \<and> (\<forall>x < length st. \<forall>c. co = Some c \<and> below st c x \<and> x \<noteq> c \<longrightarrow> st' ! x = st ! x)
           \<and> (\<forall>i j. meet st a d i j
                   \<and> (\<forall>c. co = Some c \<and> j = 0 \<and> 0 < i \<longrightarrow> ancestor st (i - 1) a \<noteq> Some c) \<longrightarrow>
                 r' = m_dijkstra_distance (st ! d) + int i + int j)
           \<and> ((\<forall>i j. \<not> (meet st a d i j
                   \<and> (\<forall>c. co = Some c \<and> j = 0 \<and> 0 < i \<longrightarrow> ancestor st (i - 1) a \<noteq> Some c))) \<longrightarrow>
                 r' = r)"
proof -
  from assms(1) have "tree_heap st \<and> a < length st \<and> d < length st \<and> \<not> m_dijkstra_visited (st ! d)
        \<and> (\<forall>c. co = Some c \<longrightarrow>
              c < length st \<and> m_father (st ! c) = Some d \<and> m_dijkstra_visited (st ! c) \<and> c \<noteq> a)
        \<and> (\<forall>x < length st. \<forall>i j t. x \<noteq> d \<and> ancestor st j d = Some t \<and> ancestor st i x = Some t
              \<and> (\<forall>c. co = Some c \<longrightarrow> \<not> below st c x) \<longrightarrow> clean st x)
        \<and> meiosis_dist_tree_internal n st a d r = Some res \<longrightarrow>
        (\<exists>st' r'. res = Inr (st', r') \<and> search_frame st st'
           \<and> (\<forall>x < length st. \<forall>c. co = Some c \<and> below st c x \<and> x \<noteq> c \<longrightarrow> st' ! x = st ! x)
           \<and> (\<forall>i j. meet st a d i j
                   \<and> (\<forall>c. co = Some c \<and> j = 0 \<and> 0 < i \<longrightarrow> ancestor st (i - 1) a \<noteq> Some c) \<longrightarrow>
                 r' = m_dijkstra_distance (st ! d) + int i + int j)
           \<and> ((\<forall>i j. \<not> (meet st a d i j
                   \<and> (\<forall>c. co = Some c \<and> j = 0 \<and> 0 < i \<longrightarrow> ancestor st (i - 1) a \<noteq> Some c))) \<longrightarrow>
                 r' = r))"
    unfolding search_up_def by (elim allE)
  then show ?thesis using assms(2-) by (elim impE) (intro conjI, assumption+)
qed

lemma search_up_Suc:
  assumes U: "search_up n"
  shows "search_up (Suc n)"
  unfolding search_up_def
proof (intro allI impI)
  fix st a d co r res
  assume h: "tree_heap st \<and> a < length st \<and> d < length st \<and> \<not> m_dijkstra_visited (st ! d)
        \<and> (\<forall>c. co = Some c \<longrightarrow>
              c < length st \<and> m_father (st ! c) = Some d \<and> m_dijkstra_visited (st ! c) \<and> c \<noteq> a)
        \<and> (\<forall>x < length st. \<forall>i j t. x \<noteq> d \<and> ancestor st j d = Some t \<and> ancestor st i x = Some t
              \<and> (\<forall>c. co = Some c \<longrightarrow> \<not> below st c x) \<longrightarrow> clean st x)
        \<and> meiosis_dist_tree_internal (Suc n) st a d r = Some res"
  then have wf: "tree_heap st" and av: "a < length st" and dv: "d < length st"
    and nvd: "\<not> m_dijkstra_visited (st ! d)"
    and cc: "\<forall>c. co = Some c \<longrightarrow>
              c < length st \<and> m_father (st ! c) = Some d \<and> m_dijkstra_visited (st ! c) \<and> c \<noteq> a"
    and region: "\<forall>x < length st. \<forall>i j t. x \<noteq> d \<and> ancestor st j d = Some t
              \<and> ancestor st i x = Some t
              \<and> (\<forall>c. co = Some c \<longrightarrow> \<not> below st c x) \<longrightarrow> clean st x"
    and run: "meiosis_dist_tree_internal (Suc n) st a d r = Some res"
    by blast+
  have excl_up: "\<And>c x. co = Some c \<Longrightarrow> below st c x \<Longrightarrow> below st d x"
    using cc below_up by blast
  show "\<exists>st' r'. res = Inr (st', r') \<and> search_frame st st'
           \<and> (\<forall>x < length st. \<forall>c. co = Some c \<and> below st c x \<and> x \<noteq> c \<longrightarrow> st' ! x = st ! x)
           \<and> (\<forall>i j. meet st a d i j
                   \<and> (\<forall>c. co = Some c \<and> j = 0 \<and> 0 < i \<longrightarrow> ancestor st (i - 1) a \<noteq> Some c) \<longrightarrow>
                 r' = m_dijkstra_distance (st ! d) + int i + int j)
           \<and> ((\<forall>i j. \<not> (meet st a d i j
                   \<and> (\<forall>c. co = Some c \<and> j = 0 \<and> 0 < i \<longrightarrow> ancestor st (i - 1) a \<noteq> Some c))) \<longrightarrow>
                 r' = r)"
  proof (cases "d = a")
    case True
    then have res: "res = Inr (st, m_dijkstra_distance (st ! d))"
      using run internal_at_this [OF av, where n = n and r = r] by simp
    have z: "\<forall>i j. meet st a d i j \<longrightarrow> i = 0 \<and> j = 0"
      using meet_self [OF wf av] True by blast
    have e1: "\<forall>x < length st. \<forall>c. co = Some c \<and> below st c x \<and> x \<noteq> c \<longrightarrow> st ! x = st ! x"
      by simp
    have e2: "\<forall>i j. meet st a d i j
                   \<and> (\<forall>c. co = Some c \<and> j = 0 \<and> 0 < i \<longrightarrow> ancestor st (i - 1) a \<noteq> Some c) \<longrightarrow>
                 m_dijkstra_distance (st ! d) = m_dijkstra_distance (st ! d) + int i + int j"
    proof (intro allI impI)
      fix i j
      assume "meet st a d i j
                   \<and> (\<forall>c. co = Some c \<and> j = 0 \<and> 0 < i \<longrightarrow> ancestor st (i - 1) a \<noteq> Some c)"
      with z have "i = 0 \<and> j = 0" by blast
      then show "m_dijkstra_distance (st ! d) = m_dijkstra_distance (st ! d) + int i + int j"
        by simp
    qed
    have "meet st a d 0 0" using True meet_refl by simp
    then have e3: "(\<forall>i j. \<not> (meet st a d i j
                   \<and> (\<forall>c. co = Some c \<and> j = 0 \<and> 0 < i \<longrightarrow> ancestor st (i - 1) a \<noteq> Some c))) \<longrightarrow>
                 m_dijkstra_distance (st ! d) = r"
      by blast
    from res search_frame_refl [of st] e1 e2 e3 show ?thesis by blast
  next
    case False
    then have pid: "m_pid (st ! a) \<noteq> m_pid (st ! d)" using pid_eq_iff [OF wf av dv] by simp
    define m where "m = m_dijkstra_distance (st ! d) + 1"
    define st1 where "st1 = st[d := dijkstra_tick_distance 1 (dijkstra_mark_visited (st ! d))]"
    define cs where "cs = m_children (st ! d)"
    have f1: "search_frame st st1" unfolding st1_def by (rule search_frame_mark)
    note F1 = search_frame_D [OF f1]
    have nth1d: "st1 ! d = dijkstra_tick_distance 1 (dijkstra_mark_visited (st ! d))"
      using dv by (simp add: st1_def)
    have nth1: "\<And>x. x \<noteq> d \<Longrightarrow> st1 ! x = st ! x" by (simp add: st1_def)
    have m1: "m_dijkstra_distance (st1 ! d) = m" by (simp add: nth1d m_def)
    have v1d: "m_dijkstra_visited (st1 ! d)" by (simp add: nth1d)
    have f1f: "m_father (st1 ! d) = m_father (st ! d)"
      using same_links_fields(2) [OF F1(1)] by simp
    have l1: "length st1 = length st" using F1(2) .
    from run pid av dv have run0:
      "(case (case m_father (st ! d) of
                None \<Rightarrow> Some (Inr (st1, r))
              | Some father \<Rightarrow>
                  if \<not> father < length st1 then Some (Inl undefined_behaviour)
                  else meiosis_dist_tree_internal n
                         (st1[father := dijkstra_tick_distance (m_dijkstra_distance (st1 ! d))
                                          (st1 ! father)])
                         a father r) of
          None \<Rightarrow> None
        | Some (Inl e) \<Rightarrow> Some (Inl e)
        | Some (Inr (st3, r3)) \<Rightarrow>
            meiosis_dist_tree_children n st3 a (m_dijkstra_distance (st1 ! d))
              (m_children (st3 ! d)) r3) = Some res"
      using nvd by (simp add: Let_def st1_def [symmetric] l1 f1f)
    have run1:
      "(case (case m_father (st ! d) of
                None \<Rightarrow> Some (Inr (st1, r))
              | Some father \<Rightarrow>
                  if \<not> father < length st then Some (Inl undefined_behaviour)
                  else meiosis_dist_tree_internal n
                         (st1[father := dijkstra_tick_distance m (st1 ! father)]) a father r) of
          None \<Rightarrow> None
        | Some (Inl e) \<Rightarrow> Some (Inl e)
        | Some (Inr (st3, r3)) \<Rightarrow>
            meiosis_dist_tree_children n st3 a m (m_children (st3 ! d)) r3) = Some res"
      using run0 unfolding m1 l1 .
    have up: "\<exists>st3 r3. search_frame st st3 \<and> m_dijkstra_visited (st3 ! d)
        \<and> (\<forall>x < length st. below st d x \<and> x \<noteq> d \<longrightarrow> st3 ! x = st ! x)
        \<and> meiosis_dist_tree_children n st3 a m cs r3 = Some res
        \<and> (\<forall>i j. meet st a d i (Suc j) \<longrightarrow> r3 = m_dijkstra_distance (st ! d) + int i + int (Suc j))
        \<and> ((\<forall>i j. \<not> meet st a d i (Suc j)) \<longrightarrow> r3 = r)"
    proof (cases "m_father (st ! d)")
      case None
      then have "\<And>j. ancestor st (Suc j) d = None" by (subst ancestor_Suc_bottom) simp
      then have nomeet: "\<And>i j. \<not> meet st a d i (Suc j)"
        by (auto simp: meet_def simp del: ancestor.simps(2))
      have "m_children (st1 ! d) = cs" using same_links_fields(3) [OF F1(1)] by (simp add: cs_def)
      with run1 None have "meiosis_dist_tree_children n st1 a m cs r = Some res" by simp
      with f1 v1d nth1 nomeet show ?thesis by blast
    next
      case (Some f)
      note fg = father_generation [OF wf dv Some]
      have fd: "f \<noteq> d" using fg(2) by auto
      define st2 where "st2 = st1[f := dijkstra_tick_distance m (st1 ! f)]"
      have f12: "search_frame st1 st2" unfolding st2_def by (rule search_frame_tick)
      have f2: "search_frame st st2" using f1 f12 by (rule search_frame_trans)
      note F2 = search_frame_D [OF f2]
      have nth2: "\<And>x. x \<noteq> d \<Longrightarrow> x \<noteq> f \<Longrightarrow> st2 ! x = st ! x" by (simp add: st2_def st1_def)
      have nth2f: "st2 ! f = dijkstra_tick_distance m (st ! f)"
        using fg(1) fd by (simp add: st2_def l1 nth1)
      have v2d: "m_dijkstra_visited (st2 ! d)" using fd v1d by (simp add: st2_def)
      have nbf: "\<not> below st d f" by (rule not_below_father [OF wf dv Some])
      have anc_f: "\<And>j. ancestor st (Suc j) d = ancestor st j f"
        using Some by (subst ancestor_Suc_bottom) simp
      have "clean st f"
      proof -
        have "ancestor st 1 d = Some f" using Some by simp
        moreover have "ancestor st 0 f = Some f" by simp
        moreover have "\<forall>c. co = Some c \<longrightarrow> \<not> below st c f" using excl_up nbf by blast
        ultimately show ?thesis using region fg(1) fd by blast
      qed
      then have nv2f: "\<not> m_dijkstra_visited (st2 ! f)" and d2f: "m_dijkstra_distance (st2 ! f) = m"
        by (simp_all add: nth2f clean_def)
      from run1 Some fg(1) obtain res2 where
        i2: "meiosis_dist_tree_internal n st2 a f r = Some res2"
        and run2: "(case res2 of Inl e \<Rightarrow> Some (Inl e)
             | Inr (st3, r3) \<Rightarrow> meiosis_dist_tree_children n st3 a m (m_children (st3 ! d)) r3)
            = Some res"
        by (auto simp: st2_def [symmetric] split: option.splits)
      have cc2: "\<forall>c. Some d = Some c \<longrightarrow>
              c < length st2 \<and> m_father (st2 ! c) = Some f \<and> m_dijkstra_visited (st2 ! c) \<and> c \<noteq> a"
        using dv Some v2d False same_links_fields(2) [OF F2(1)] by (simp add: F2(2))
      have region2: "\<forall>x < length st2. \<forall>i j t. x \<noteq> f \<and> ancestor st2 j f = Some t
              \<and> ancestor st2 i x = Some t
              \<and> (\<forall>c. Some d = Some c \<longrightarrow> \<not> below st2 c x) \<longrightarrow> clean st2 x"
      proof (intro allI impI)
        fix x i j t
        assume "x < length st2"
          and h: "x \<noteq> f \<and> ancestor st2 j f = Some t \<and> ancestor st2 i x = Some t
              \<and> (\<forall>c. Some d = Some c \<longrightarrow> \<not> below st2 c x)"
        then have x: "x < length st" and xf: "x \<noteq> f" and j: "ancestor st (Suc j) d = Some t"
          and i: "ancestor st i x = Some t" and nb: "\<not> below st d x"
          by (simp_all add: F2 anc_f del: ancestor.simps(2))
        have xd: "x \<noteq> d" using nb below_refl by auto
        have "\<forall>c. co = Some c \<longrightarrow> \<not> below st c x" using excl_up nb by blast
        with region x xd j i have "clean st x" by blast
        then show "clean st2 x" using nth2 [OF xd xf] by (simp add: clean_def)
      qed
      have "\<exists>st' r'. res2 = Inr (st', r') \<and> search_frame st2 st'
           \<and> (\<forall>x < length st2. \<forall>c. Some d = Some c \<and> below st2 c x \<and> x \<noteq> c \<longrightarrow> st' ! x = st2 ! x)
           \<and> (\<forall>i j. meet st2 a f i j
                   \<and> (\<forall>c. Some d = Some c \<and> j = 0 \<and> 0 < i \<longrightarrow> ancestor st2 (i - 1) a \<noteq> Some c) \<longrightarrow>
                 r' = m_dijkstra_distance (st2 ! f) + int i + int j)
           \<and> ((\<forall>i j. \<not> (meet st2 a f i j
                   \<and> (\<forall>c. Some d = Some c \<and> j = 0 \<and> 0 < i \<longrightarrow> ancestor st2 (i - 1) a \<noteq> Some c))) \<longrightarrow>
                 r' = r)"
        using _ _ _ nv2f cc2 region2 i2
        by (rule search_upD [OF U]) (simp_all add: F2 wf av fg(1))
      then obtain st3 r3 where r2: "res2 = Inr (st3, r3)" and f3: "search_frame st2 st3"
        and fr3: "\<forall>x < length st2. \<forall>c. Some d = Some c \<and> below st2 c x \<and> x \<noteq> c \<longrightarrow>
                    st3 ! x = st2 ! x"
        and d13: "\<forall>i j. meet st2 a f i j
                   \<and> (\<forall>c. Some d = Some c \<and> j = 0 \<and> 0 < i \<longrightarrow> ancestor st2 (i - 1) a \<noteq> Some c) \<longrightarrow>
                 r3 = m_dijkstra_distance (st2 ! f) + int i + int j"
        and d23: "(\<forall>i j. \<not> (meet st2 a f i j
                   \<and> (\<forall>c. Some d = Some c \<and> j = 0 \<and> 0 < i \<longrightarrow> ancestor st2 (i - 1) a \<noteq> Some c))) \<longrightarrow>
                 r3 = r"
        by (elim exE conjE)
      have meet2: "\<And>i j. meet st2 a f i j = meet st a f i j" by (simp add: meet_def F2(4))
      have f03: "search_frame st st3" using f2 f3 by (rule search_frame_trans)
      note F3 = search_frame_D [OF f03]
      have q2: "m_dijkstra_visited (st3 ! d)"
        using search_frame_D(6) [OF f3, of d] v2d dv by (simp add: F2(2))
      have q3: "\<forall>x < length st. below st d x \<and> x \<noteq> d \<longrightarrow> st3 ! x = st ! x"
      proof (intro allI impI)
        fix x assume x: "x < length st" and h: "below st d x \<and> x \<noteq> d"
        then have "st3 ! x = st2 ! x" using fr3 by (simp add: F2)
        moreover have "x \<noteq> f" using h nbf by auto
        ultimately show "st3 ! x = st ! x" using nth2 h by simp
      qed
      have q4: "meiosis_dist_tree_children n st3 a m cs r3 = Some res"
        using run2 r2 same_links_fields(3) [OF F3(1)] by (simp add: cs_def)
      have up_meet: "\<And>i j. meet st a d i (Suc j) \<Longrightarrow>
          meet st a f i j \<and> (j = 0 \<and> 0 < i \<longrightarrow> ancestor st (i - 1) a \<noteq> Some d)"
      proof -
        fix i j assume mt: "meet st a d i (Suc j)"
        then have "ancestor st i a \<noteq> None \<and> ancestor st i a = ancestor st (Suc j) d
            \<and> (0 < i \<and> 0 < Suc j \<longrightarrow> ancestor st (i - 1) a \<noteq> ancestor st (Suc j - 1) d)"
          unfolding meet_def .
        then have 1: "ancestor st i a \<noteq> None" and 2: "ancestor st i a = ancestor st j f"
          and 3: "0 < i \<longrightarrow> ancestor st (i - 1) a \<noteq> ancestor st j d"
          unfolding anc_f diff_Suc_1 by blast+
        have "0 < i \<and> 0 < j \<longrightarrow> ancestor st (i - 1) a \<noteq> ancestor st (j - 1) f"
        proof
          assume "0 < i \<and> 0 < j"
          then have "ancestor st j d = ancestor st (j - 1) f" and "0 < i"
            using anc_f [of "j - 1"] by simp_all
          with 3 show "ancestor st (i - 1) a \<noteq> ancestor st (j - 1) f" by simp
        qed
        moreover have "j = 0 \<and> 0 < i \<longrightarrow> ancestor st (i - 1) a \<noteq> Some d" using 3 by auto
        ultimately show "meet st a f i j \<and> (j = 0 \<and> 0 < i \<longrightarrow> ancestor st (i - 1) a \<noteq> Some d)"
          using 1 2 by (auto simp: meet_def)
      qed
      have down_meet: "\<And>i j. meet st a f i j \<Longrightarrow>
          (j = 0 \<and> 0 < i \<longrightarrow> ancestor st (i - 1) a \<noteq> Some d) \<Longrightarrow> meet st a d i (Suc j)"
      proof -
        fix i j assume mt: "meet st a f i j"
          and c: "j = 0 \<and> 0 < i \<longrightarrow> ancestor st (i - 1) a \<noteq> Some d"
        then have 1: "ancestor st i a \<noteq> None" and 2: "ancestor st i a = ancestor st j f"
          and 3: "0 < i \<and> 0 < j \<longrightarrow> ancestor st (i - 1) a \<noteq> ancestor st (j - 1) f"
          unfolding meet_def by blast+
        have "0 < i \<longrightarrow> ancestor st (i - 1) a \<noteq> ancestor st j d"
        proof
          assume i: "0 < i"
          show "ancestor st (i - 1) a \<noteq> ancestor st j d"
          proof (cases j)
            case 0
            then show ?thesis using c i by simp
          next
            case (Suc j')
            then show ?thesis using 3 i anc_f [of j'] by (simp del: ancestor.simps(2))
          qed
        qed
        then have "ancestor st i a \<noteq> None \<and> ancestor st i a = ancestor st (Suc j) d
            \<and> (0 < i \<and> 0 < Suc j \<longrightarrow> ancestor st (i - 1) a \<noteq> ancestor st (Suc j - 1) d)"
          using 1 2 unfolding anc_f diff_Suc_1 by blast
        then show "meet st a d i (Suc j)" unfolding meet_def .
      qed
      have q5: "\<forall>i j. meet st a d i (Suc j) \<longrightarrow>
          r3 = m_dijkstra_distance (st ! d) + int i + int (Suc j)"
      proof (intro allI impI)
        fix i j assume "meet st a d i (Suc j)"
        from up_meet [OF this] d13 have "r3 = m_dijkstra_distance (st2 ! f) + int i + int j"
          by (simp add: meet2 F2(4))
        then show "r3 = m_dijkstra_distance (st ! d) + int i + int (Suc j)"
          by (simp add: d2f m_def)
      qed
      have q6: "(\<forall>i j. \<not> meet st a d i (Suc j)) \<longrightarrow> r3 = r"
      proof
        assume "\<forall>i j. \<not> meet st a d i (Suc j)"
        then have "\<forall>i j. \<not> (meet st2 a f i j
                   \<and> (\<forall>c. Some d = Some c \<and> j = 0 \<and> 0 < i \<longrightarrow> ancestor st2 (i - 1) a \<noteq> Some c))"
          using down_meet by (auto simp: meet2 F2(4))
        with d23 show "r3 = r" by (rule mp)
      qed
      from f03 q2 q3 q4 q5 q6 show ?thesis by blast
    qed
    then obtain st3 r3 where f3: "search_frame st st3" and v3d: "m_dijkstra_visited (st3 ! d)"
      and q3: "\<forall>x < length st. below st d x \<and> x \<noteq> d \<longrightarrow> st3 ! x = st ! x"
      and run3: "meiosis_dist_tree_children n st3 a m cs r3 = Some res"
      and q5: "\<forall>i j. meet st a d i (Suc j) \<longrightarrow>
          r3 = m_dijkstra_distance (st ! d) + int i + int (Suc j)"
      and q6: "(\<forall>i j. \<not> meet st a d i (Suc j)) \<longrightarrow> r3 = r"
      by (elim exE conjE)
    note F3 = search_frame_D [OF f3]
    have dcs: "distinct cs" unfolding cs_def by (rule children_distinct [OF wf dv])
    have child: "\<And>c. c \<in> set cs \<Longrightarrow> c < length st \<and> m_father (st ! c) = Some d"
      unfolding cs_def using child_father [OF wf dv] by blast
    have co_vis: "\<And>c. co = Some c \<Longrightarrow> m_dijkstra_visited (st3 ! c)"
      using cc F3(6) by blast
    have inner: "\<And>c x. c \<in> set cs \<Longrightarrow> co \<noteq> Some c \<Longrightarrow> x < length st \<Longrightarrow> below st c x \<Longrightarrow>
        clean st3 x"
    proof -
      fix c x assume c: "c \<in> set cs" and nco: "co \<noteq> Some c" and x: "x < length st"
        and b: "below st c x"
      from child [OF c] have cv: "c < length st" and cf: "m_father (st ! c) = Some d" by simp_all
      from b obtain k where k: "ancestor st k x = Some c" by (auto simp: below_def)
      then have kd: "ancestor st (Suc k) x = Some d" using cf by simp
      have xd: "x \<noteq> d" using not_below_father [OF wf cv cf] b by auto
      have "\<forall>c0. co = Some c0 \<longrightarrow> \<not> below st c0 x"
      proof (intro allI impI)
        fix c0 assume c0: "co = Some c0"
        then have "m_father (st ! c0) = Some d" using cc by simp
        from below_siblings [OF wf x b _ cf this] nco c0 show "\<not> below st c0 x" by auto
      qed
      moreover have "ancestor st 0 d = Some d" by simp
      ultimately have "clean st x" using region x xd kd by blast
      moreover have "st3 ! x = st ! x" using q3 x xd b cf below_up by blast
      ultimately show "clean st3 x" by (simp add: clean_def)
    qed
    have ch: "\<forall>c \<in> set cs. c < length st3 \<and> m_father (st3 ! c) = Some d
              \<and> ((m_dijkstra_visited (st3 ! c) \<and> c \<noteq> a)
                  \<or> (\<forall>x < length st3. below st3 c x \<longrightarrow> clean st3 x))"
    proof
      fix c assume c: "c \<in> set cs"
      have "(m_dijkstra_visited (st3 ! c) \<and> c \<noteq> a)
                  \<or> (\<forall>x < length st3. below st3 c x \<longrightarrow> clean st3 x)"
      proof (cases "co = Some c")
        case True
        then show ?thesis using co_vis cc by simp
      next
        case False
        then show ?thesis using inner [OF c] by (simp add: F3)
      qed
      then show "c < length st3 \<and> m_father (st3 ! c) = Some d
              \<and> ((m_dijkstra_visited (st3 ! c) \<and> c \<noteq> a)
                  \<or> (\<forall>x < length st3. below st3 c x \<longrightarrow> clean st3 x))"
        using child [OF c] same_links_fields(2) [OF F3(1)] by (simp add: F3(2))
    qed
    have "\<exists>st' r'. res = Inr (st', r') \<and> search_frame st3 st'
           \<and> (\<forall>x < length st3. x \<noteq> d \<and> x \<notin> set cs
                 \<and> (\<forall>c \<in> set cs. \<not> m_dijkstra_visited (st3 ! c) \<longrightarrow> \<not> below st3 c x) \<longrightarrow>
                 st' ! x = st3 ! x)
           \<and> (\<forall>c \<in> set cs. \<forall>k. \<not> m_dijkstra_visited (st3 ! c) \<and> ancestor st3 k a = Some c \<longrightarrow>
                 r' = m + int k)
           \<and> ((\<forall>c \<in> set cs. \<not> m_dijkstra_visited (st3 ! c) \<longrightarrow> \<not> below st3 c a) \<longrightarrow> r' = r3)"
      using _ _ _ v3d False dcs ch run3
      by (rule children_loop_all) (simp_all add: F3 wf av dv)
    then obtain st' r' where res: "res = Inr (st', r')" and f4: "search_frame st3 st'"
      and fr': "\<forall>x < length st3. x \<noteq> d \<and> x \<notin> set cs
                 \<and> (\<forall>c \<in> set cs. \<not> m_dijkstra_visited (st3 ! c) \<longrightarrow> \<not> below st3 c x) \<longrightarrow>
                 st' ! x = st3 ! x"
      and d1': "\<forall>c \<in> set cs. \<forall>k. \<not> m_dijkstra_visited (st3 ! c) \<and> ancestor st3 k a = Some c \<longrightarrow>
                 r' = m + int k"
      and d2': "(\<forall>c \<in> set cs. \<not> m_dijkstra_visited (st3 ! c) \<longrightarrow> \<not> below st3 c a) \<longrightarrow> r' = r3"
      by (elim exE conjE)
    have c1: "search_frame st st'" using f3 f4 by (rule search_frame_trans)
    have c2: "\<forall>x < length st. \<forall>c. co = Some c \<and> below st c x \<and> x \<noteq> c \<longrightarrow> st' ! x = st ! x"
    proof (intro allI impI)
      fix x c0 assume x: "x < length st" and h: "co = Some c0 \<and> below st c0 x \<and> x \<noteq> c0"
      with cc have c0v: "c0 < length st" and c0f: "m_father (st ! c0) = Some d" by simp_all
      have bd: "below st d x" using h c0f below_up by blast
      have xd: "x \<noteq> d" using not_below_father [OF wf c0v c0f] h by auto
      have nin: "x \<notin> set cs"
      proof
        assume "x \<in> set cs"
        then have "m_father (st ! x) = Some d" using child by simp
        from below_siblings [OF wf x below_refl _ this c0f] h show False by simp
      qed
      have "\<forall>c \<in> set cs. \<not> m_dijkstra_visited (st3 ! c) \<longrightarrow> \<not> below st3 c x"
      proof (intro ballI impI)
        fix c assume c: "c \<in> set cs" and nv: "\<not> m_dijkstra_visited (st3 ! c)"
        then have "c \<noteq> c0" using co_vis h by auto
        moreover have "m_father (st ! c) = Some d" using child [OF c] by simp
        ultimately show "\<not> below st3 c x"
          using below_siblings [OF wf x _ _ _ c0f] h by (auto simp: F3(5))
      qed
      with fr' x xd nin have "st' ! x = st3 ! x" by (simp add: F3(2))
      then show "st' ! x = st ! x" using q3 x bd xd by simp
    qed
    have c3: "\<forall>i j. meet st a d i j
                   \<and> (\<forall>c. co = Some c \<and> j = 0 \<and> 0 < i \<longrightarrow> ancestor st (i - 1) a \<noteq> Some c) \<longrightarrow>
                 r' = m_dijkstra_distance (st ! d) + int i + int j"
    proof (intro allI impI)
      fix i j
      assume h: "meet st a d i j
                   \<and> (\<forall>c. co = Some c \<and> j = 0 \<and> 0 < i \<longrightarrow> ancestor st (i - 1) a \<noteq> Some c)"
      show "r' = m_dijkstra_distance (st ! d) + int i + int j"
      proof (cases j)
        case 0
        with h have id: "ancestor st i a = Some d" by (simp add: meet_def)
        then obtain i' where i': "i = Suc i'" using False by (cases i) simp_all
        with id obtain c where c: "ancestor st i' a = Some c" and cf: "m_father (st ! c) = Some d"
          by (auto split: option.splits)
        from ancestor_valid [OF wf av c] have cv: "c < length st" by simp
        from father_generation(3) [OF wf cv cf] have cin: "c \<in> set cs" by (simp add: cs_def)
        have "co \<noteq> Some c" using h 0 i' c by auto
        from inner [OF cin this cv below_refl] have "\<not> m_dijkstra_visited (st3 ! c)"
          by (simp add: clean_def)
        with d1' cin c have "r' = m + int i'" by (simp add: F3(4))
        then show ?thesis by (simp add: m_def i' 0)
      next
        case (Suc j')
        with h have mt: "meet st a d i (Suc j')" by simp
        with q5 have r3: "r3 = m_dijkstra_distance (st ! d) + int i + int (Suc j')" by blast
        from mt have mt': "ancestor st i a \<noteq> None \<and> ancestor st i a = ancestor st (Suc j') d
            \<and> (0 < i \<longrightarrow> ancestor st (i - 1) a \<noteq> ancestor st j' d)"
          unfolding meet_def diff_Suc_1 using zero_less_Suc [of j'] by blast
        then obtain t where ti: "ancestor st i a = Some t" by blast
        from mt' ti have tj: "ancestor st (Suc j') d = Some t" by metis
        from mt' have br: "0 < i \<longrightarrow> ancestor st (i - 1) a \<noteq> ancestor st j' d" by blast
        have "\<forall>c \<in> set cs. \<not> m_dijkstra_visited (st3 ! c) \<longrightarrow> \<not> below st3 c a"
        proof (intro ballI impI)
          fix c assume c: "c \<in> set cs"
          from child [OF c] have cf: "m_father (st ! c) = Some d" by simp
          show "\<not> below st3 c a"
          proof
            assume "below st3 c a"
            then obtain k where k: "ancestor st k a = Some c" by (auto simp: below_def F3(4))
            have cj: "ancestor st (Suc j') c = ancestor st j' d"
              using cf by (subst ancestor_Suc_bottom) simp
            have kd: "ancestor st (Suc k) a = Some d" using k cf by simp
            have "ancestor st (Suc k + Suc j') a = Some t"
              unfolding ancestor_add [of st "Suc k" "Suc j'" a] kd using tj by simp
            from ancestor_depth_unique [OF wf av ti this] have i: "i = Suc k + Suc j'" .
            have "ancestor st (k + Suc j') a = ancestor st j' d"
              unfolding ancestor_add [of st k "Suc j'" a] k using cj by simp
            moreover have "i - 1 = k + Suc j'" using i by simp
            ultimately show False using br i by simp
          qed
        qed
        with d2' have "r' = r3" by (rule mp)
        with r3 show ?thesis by (simp add: Suc)
      qed
    qed
    have c4: "(\<forall>i j. \<not> (meet st a d i j
                   \<and> (\<forall>c. co = Some c \<and> j = 0 \<and> 0 < i \<longrightarrow> ancestor st (i - 1) a \<noteq> Some c))) \<longrightarrow>
                 r' = r"
    proof
      assume no: "\<forall>i j. \<not> (meet st a d i j
                   \<and> (\<forall>c. co = Some c \<and> j = 0 \<and> 0 < i \<longrightarrow> ancestor st (i - 1) a \<noteq> Some c))"
      then have "\<forall>i j. \<not> meet st a d i (Suc j)" by auto
      with q6 have r3: "r3 = r" by (rule mp)
      have "\<forall>c \<in> set cs. \<not> m_dijkstra_visited (st3 ! c) \<longrightarrow> \<not> below st3 c a"
      proof (intro ballI impI)
        fix c assume c: "c \<in> set cs" and nv: "\<not> m_dijkstra_visited (st3 ! c)"
        from child [OF c] have cf: "m_father (st ! c) = Some d" by simp
        show "\<not> below st3 c a"
        proof
          assume "below st3 c a"
          then obtain k where k: "ancestor st k a = Some c" by (auto simp: below_def F3(4))
          then have "meet st a d (Suc k) 0" using cf by (simp add: meet_def)
          moreover have "\<forall>c0. co = Some c0 \<and> (0::nat) = 0 \<and> 0 < Suc k \<longrightarrow>
              ancestor st (Suc k - 1) a \<noteq> Some c0"
            using k nv co_vis by auto
          ultimately show False using no by blast
        qed
      qed
      with d2' have "r' = r3" by (rule mp)
      with r3 show "r' = r" by simp
    qed
    from res c1 c2 c3 c4 show ?thesis by blast
  qed
qed

lemma search_up_all: "search_up n"
proof (induction n)
  case 0
  show ?case unfolding search_up_def by simp
next
  case (Suc n)
  then show ?case by (rule search_up_Suc)
qed

section \<open>Properties: the distance search returns\<close>

lemma finite_unvisited: "finite (unvisited st)"
  by (simp add: unvisited_def)

lemma card_unvisited_le: "card (unvisited st) \<le> length st"
proof -
  have "unvisited st \<subseteq> {..<length st}" by (auto simp: unvisited_def)
  then have "card (unvisited st) \<le> card {..<length st}" by (intro card_mono) simp_all
  then show ?thesis by simp
qed

lemma unvisited_tick: "unvisited (st[i := dijkstra_tick_distance m (st ! i)]) = unvisited st"
proof -
  have "\<And>x. x < length st \<Longrightarrow>
      m_dijkstra_visited (st[i := dijkstra_tick_distance m (st ! i)] ! x)
        = m_dijkstra_visited (st ! x)"
    by (case_tac "x = i") simp_all
  then show ?thesis by (auto simp: unvisited_def)
qed

lemma unvisited_mark:
  assumes "d < length st"
  shows "unvisited (st[d := dijkstra_tick_distance m (dijkstra_mark_visited (st ! d))])
           = unvisited st - {d}"
proof -
  have "\<And>x. x < length st \<Longrightarrow>
      m_dijkstra_visited (st[d := dijkstra_tick_distance m (dijkstra_mark_visited (st ! d))] ! x)
        = (x = d \<or> m_dijkstra_visited (st ! x))"
    by (case_tac "x = d") simp_all
  then show ?thesis by (auto simp: unvisited_def)
qed

lemma search_returns_now: "search_returns st (Some (Inr (st, r)))"
  by (simp add: search_returns_def)

lemma search_returns_error: "search_returns st (Some (Inl e))"
  by (simp add: search_returns_def)

lemma children_return:
  assumes P: "\<And>st d r. card (unvisited st) < n \<Longrightarrow>
      search_returns st (meiosis_dist_tree_internal n st a d r)"
  shows "card (unvisited st) < n \<Longrightarrow>
      search_returns st (meiosis_dist_tree_children n st a m cs r)"
proof (induction cs arbitrary: st r)
  case Nil
  show ?case by (simp add: search_returns_now)
next
  case (Cons c cs)
  show ?case
  proof (cases "c < length st")
    case False
    then show ?thesis by (simp add: search_returns_error)
  next
    case True
    define st1 where "st1 = st[c := dijkstra_tick_distance m (st ! c)]"
    have u1: "unvisited st1 = unvisited st" unfolding st1_def by (rule unvisited_tick)
    have l1: "length st1 = length st" by (simp add: st1_def)
    from Cons.prems have "card (unvisited st1) < n" by (simp add: u1)
    from P [OF this] obtain res1 where
      r1: "meiosis_dist_tree_internal n st1 a c r = Some res1"
      and p1: "\<forall>st' r'. res1 = Inr (st', r') \<longrightarrow>
              length st' = length st1 \<and> card (unvisited st') \<le> card (unvisited st1)"
      unfolding search_returns_def by blast
    show ?thesis
    proof (cases res1)
      case (Inl e)
      then show ?thesis using True r1 by (simp add: st1_def [symmetric] search_returns_error)
    next
      case (Inr p)
      obtain st2 r2 where p: "p = (st2, r2)" by (cases p)
      from p1 Inr p have l2: "length st2 = length st"
        and c2: "card (unvisited st2) \<le> card (unvisited st)" by (simp_all add: l1 u1)
      from c2 Cons.prems have "card (unvisited st2) < n" by simp
      from Cons.IH [OF this]
      have "search_returns st2 (meiosis_dist_tree_children n st2 a m cs r2)" .
      then have "search_returns st (meiosis_dist_tree_children n st2 a m cs r2)"
        using l2 c2 unfolding search_returns_def by fastforce
      then show ?thesis using True r1 Inr p by (simp add: st1_def [symmetric])
    qed
  qed
qed

lemma internal_returns:
  "card (unvisited st) < n \<Longrightarrow> search_returns st (meiosis_dist_tree_internal n st a d r)"
proof (induction n arbitrary: st d r)
  case 0
  then show ?case by simp
next
  case (Suc n)
  have C: "\<And>st m cs r. card (unvisited st) < n \<Longrightarrow>
      search_returns st (meiosis_dist_tree_children n st a m cs r)"
  proof -
    fix st m cs r
    assume c: "card (unvisited st) < n"
    show "search_returns st (meiosis_dist_tree_children n st a m cs r)"
    proof (rule children_return)
      show "card (unvisited st) < n" by (rule c)
    next
      fix st' d' r'
      assume "card (unvisited st') < n"
      then show "search_returns st' (meiosis_dist_tree_internal n st' a d' r')"
        by (rule Suc.IH)
    qed
  qed
  show ?case
  proof (cases "\<not> (a < length st \<and> d < length st) \<or> m_pid (st ! a) = m_pid (st ! d)
      \<or> m_dijkstra_visited (st ! d)")
    case True
    then show ?thesis by (auto simp: search_returns_now search_returns_error)
  next
    case False
    then have av: "a < length st" and dv: "d < length st"
      and pid: "m_pid (st ! a) \<noteq> m_pid (st ! d)" and nv: "\<not> m_dijkstra_visited (st ! d)"
      by simp_all
    define st1 where "st1 = st[d := dijkstra_tick_distance 1 (dijkstra_mark_visited (st ! d))]"
    define m where "m = m_dijkstra_distance (st1 ! d)"
    have l1: "length st1 = length st" by (simp add: st1_def)
    have "d \<in> unvisited st" using dv nv by (simp add: unvisited_def)
    moreover have u1: "unvisited st1 = unvisited st - {d}"
      unfolding st1_def using dv by (rule unvisited_mark)
    ultimately have c1: "card (unvisited st1) < card (unvisited st)"
      using card_Diff1_less [OF finite_unvisited [of st], of d] by simp
    with Suc.prems have c1n: "card (unvisited st1) < n" by simp
    have up: "\<exists>res2. (case m_father (st1 ! d) of
                    None \<Rightarrow> Some (Inr (st1, r))
                  | Some father \<Rightarrow>
                      if \<not> father < length st1 then Some (Inl undefined_behaviour)
                      else meiosis_dist_tree_internal n
                             (st1[father := dijkstra_tick_distance m (st1 ! father)])
                             a father r) = Some res2
          \<and> (\<forall>st' r'. res2 = Inr (st', r') \<longrightarrow>
              length st' = length st1 \<and> card (unvisited st') \<le> card (unvisited st1))"
    proof (cases "m_father (st1 ! d)")
      case None
      then show ?thesis by simp
    next
      case (Some f)
      show ?thesis
      proof (cases "f < length st1")
        case False
        then show ?thesis using Some by simp
      next
        case True
        define st2 where "st2 = st1[f := dijkstra_tick_distance m (st1 ! f)]"
        have u2: "unvisited st2 = unvisited st1" unfolding st2_def by (rule unvisited_tick)
        have l2: "length st2 = length st1" by (simp add: st2_def)
        from c1n have "card (unvisited st2) < n" by (simp add: u2)
        from Suc.IH [OF this, where d = f and r = r] show ?thesis
          using Some True unfolding search_returns_def
          by (simp add: st2_def [symmetric] u2 l2)
      qed
    qed
    then obtain res2 where
      r2: "(case m_father (st1 ! d) of
                    None \<Rightarrow> Some (Inr (st1, r))
                  | Some father \<Rightarrow>
                      if \<not> father < length st1 then Some (Inl undefined_behaviour)
                      else meiosis_dist_tree_internal n
                             (st1[father := dijkstra_tick_distance m (st1 ! father)])
                             a father r) = Some res2"
      and p2: "\<forall>st' r'. res2 = Inr (st', r') \<longrightarrow>
              length st' = length st1 \<and> card (unvisited st') \<le> card (unvisited st1)"
      by blast
    have unf: "meiosis_dist_tree_internal (Suc n) st a d r =
        (case res2 of Inl e \<Rightarrow> Some (Inl e)
         | Inr (st3, r3) \<Rightarrow> meiosis_dist_tree_children n st3 a m (m_children (st3 ! d)) r3)"
      using av dv pid nv r2 unfolding m_def
      by (simp add: Let_def st1_def [symmetric])
    show ?thesis
    proof (cases res2)
      case (Inl e)
      then show ?thesis unfolding unf by (simp add: search_returns_error)
    next
      case (Inr p)
      obtain st3 r3 where p: "p = (st3, r3)" by (cases p)
      from p2 Inr p have l3: "length st3 = length st"
        and c3: "card (unvisited st3) \<le> card (unvisited st1)" by (simp_all add: l1)
      from c3 c1n have "card (unvisited st3) < n" by simp
      from C [OF this]
      have "search_returns st3 (meiosis_dist_tree_children n st3 a m (m_children (st3 ! d)) r3)" .
      then have "search_returns st (meiosis_dist_tree_children n st3 a m (m_children (st3 ! d)) r3)"
        using l3 c3 c1 unfolding search_returns_def by fastforce
      then show ?thesis unfolding unf using Inr p by simp
    qed
  qed
qed

section \<open>Properties: the meiotic distance\<close>

lemma reset_all:
  "\<forall>x \<in> set inds. x < length st \<Longrightarrow>
     \<exists>st1. dijkstra_reset_all st inds = Inr st1 \<and> same_links st1 st
       \<and> (\<forall>x \<in> set inds. clean st1 x) \<and> (\<forall>x. x \<notin> set inds \<longrightarrow> st1 ! x = st ! x)"
proof (induction inds arbitrary: st)
  case Nil
  show ?case by (simp add: same_links_refl)
next
  case (Cons c inds)
  define st0 where "st0 = st[c := dijkstra_reset (st ! c)]"
  have l0: "length st0 = length st" by (simp add: st0_def)
  have s0: "same_links st0 st" unfolding st0_def by (rule same_links_reset)
  from Cons.prems have cv: "c < length st" by simp
  from Cons.prems have "\<forall>x \<in> set inds. x < length st0" by (simp add: l0)
  from Cons.IH [OF this] obtain st1 where
    r: "dijkstra_reset_all st0 inds = Inr st1" and s1: "same_links st1 st0"
    and cl: "\<forall>x \<in> set inds. clean st1 x" and un: "\<forall>x. x \<notin> set inds \<longrightarrow> st1 ! x = st0 ! x"
    by blast
  have run: "dijkstra_reset_all st (c # inds) = Inr st1"
    using cv r by (simp add: st0_def [symmetric])
  have c0: "clean st0 c" using cv by (simp add: st0_def clean_def dijkstra_reset_def)
  have cc: "clean st1 c"
  proof (cases "c \<in> set inds")
    case True
    then show ?thesis using cl by blast
  next
    case False
    then have "st1 ! c = st0 ! c" using un by blast
    then show ?thesis using c0 by (simp add: clean_def)
  qed
  have un': "\<forall>x. x \<notin> set (c # inds) \<longrightarrow> st1 ! x = st ! x"
  proof (intro allI impI)
    fix x
    assume "x \<notin> set (c # inds)"
    then have "x \<notin> set inds" and "x \<noteq> c" by auto
    then show "st1 ! x = st ! x" using un by (simp add: st0_def)
  qed
  from run same_links_trans [OF s1 s0] cl cc un' show ?case by auto
qed

lemma members_up:
  assumes cl: "\<forall>y \<in> M. \<forall>f. m_father (st ! y) = Some f \<longrightarrow> f \<in> M"
  shows "b \<in> M \<Longrightarrow> ancestor st j b = Some t \<Longrightarrow> t \<in> M"
proof (induction j arbitrary: t)
  case 0
  then show ?case by simp
next
  case (Suc j)
  from Suc.prems(2) obtain y where y: "ancestor st j b = Some y" and f: "m_father (st ! y) = Some t"
    by (auto split: option.splits)
  from Suc.IH [OF Suc.prems(1) y] have "y \<in> M" .
  with cl f show ?case by blast
qed

lemma members_down:
  assumes th: "tree_heap st"
    and cl: "\<forall>y \<in> M. set (m_children (st ! y)) \<subseteq> M"
  shows "t \<in> M \<Longrightarrow> x < length st \<Longrightarrow> ancestor st i x = Some t \<Longrightarrow> x \<in> M"
proof (induction i arbitrary: t)
  case 0
  then show ?case by simp
next
  case (Suc i)
  from Suc.prems(3) obtain y where y: "ancestor st i x = Some y" and f: "m_father (st ! y) = Some t"
    by (auto split: option.splits)
  from ancestor_valid [OF th Suc.prems(2) y] have yv: "y < length st" by simp
  from father_generation(3) [OF th yv f] have "y \<in> set (m_children (st ! t))" .
  with cl Suc.prems(1) have "y \<in> M" by blast
  from Suc.IH [OF this Suc.prems(2) y] show ?case .
qed

lemma meiosis_dist_tree_meet:
  assumes th: "tree_heap st" and po: "pedigrees_ok peds st"
    and av: "a < length st" and bv: "b < length st"
    and pa: "pedigree_is_set (st ! a)"
    and id: "m_pedigree_id (st ! a) = m_pedigree_id (st ! b)"
    and fuel: "length st < fuel"
  shows "\<exists>st' r. meiosis_dist_tree fuel peds st a (Some b) = Some (Inr (st', r))
           \<and> same_links st' st
           \<and> (\<forall>i j. meet st a b i j \<longrightarrow> r = int i + int j)
           \<and> ((\<forall>i j. \<not> meet st a b i j) \<longrightarrow> r = 0)"
proof -
  from pa id have pb: "pedigree_is_set (st ! b)" by (simp add: pedigree_is_set_def)
  from po have po1: "\<forall>x < length st. pedigree_is_set (st ! x) \<longrightarrow>
        (\<exists>p < length peds. m_pedigree (st ! x) = Some p
           \<and> x \<in> set (all_individuals (peds ! p))
           \<and> (\<forall>y \<in> set (all_individuals (peds ! p)). y < length st
                 \<and> (\<forall>f. m_father (st ! y) = Some f \<longrightarrow> f \<in> set (all_individuals (peds ! p)))
                 \<and> set (m_children (st ! y)) \<subseteq> set (all_individuals (peds ! p))))"
    and po2: "\<forall>x < length st. \<forall>y < length st.
           pedigree_is_set (st ! x) \<and> m_pedigree_id (st ! x) = m_pedigree_id (st ! y) \<longrightarrow>
           m_pedigree (st ! x) = m_pedigree (st ! y)"
    unfolding pedigrees_ok_def by blast+
  from po1 bv pb have "\<exists>p < length peds. m_pedigree (st ! b) = Some p
           \<and> b \<in> set (all_individuals (peds ! p))
           \<and> (\<forall>y \<in> set (all_individuals (peds ! p)). y < length st
                 \<and> (\<forall>f. m_father (st ! y) = Some f \<longrightarrow> f \<in> set (all_individuals (peds ! p)))
                 \<and> set (m_children (st ! y)) \<subseteq> set (all_individuals (peds ! p)))"
    by blast
  then obtain p where pv: "p < length peds" and pp: "m_pedigree (st ! b) = Some p"
    and bm: "b \<in> set (all_individuals (peds ! p))"
    and cl: "\<forall>y \<in> set (all_individuals (peds ! p)). y < length st
                 \<and> (\<forall>f. m_father (st ! y) = Some f \<longrightarrow> f \<in> set (all_individuals (peds ! p)))
                 \<and> set (m_children (st ! y)) \<subseteq> set (all_individuals (peds ! p))"
    by (elim exE conjE)
  define M where "M = set (all_individuals (peds ! p))"
  from cl have mv: "\<forall>y \<in> set (all_individuals (peds ! p)). y < length st"
    and clf: "\<forall>y \<in> M. \<forall>f. m_father (st ! y) = Some f \<longrightarrow> f \<in> M"
    and clc: "\<forall>y \<in> M. set (m_children (st ! y)) \<subseteq> M"
    unfolding M_def by blast+
  from po2 av bv pa id have "m_pedigree (st ! a) = m_pedigree (st ! b)" by blast
  with pp have ppa: "m_pedigree (st ! a) = Some p" by simp
  from reset_all [OF mv] obtain st1 where
    rs: "dijkstra_reset_all st (all_individuals (peds ! p)) = Inr st1"
    and s1: "same_links st1 st"
    and c1: "\<forall>x \<in> M. clean st1 x"
    unfolding M_def by blast
  have l1: "length st1 = length st" using s1 by (simp add: same_links_def)
  have th1: "tree_heap st1" using th same_links_tree_heap [OF s1] by simp
  have anc: "\<And>n x. ancestor st1 n x = ancestor st n x" by (rule same_links_ancestor [OF s1])
  have run: "meiosis_dist_tree fuel peds st a (Some b) = meiosis_dist_tree_internal fuel st1 a b 0"
    unfolding meiosis_dist_tree_def using av bv pa pb id ppa pv rs by simp
  have "card (unvisited st1) < fuel"
    using card_unvisited_le [of st1] fuel by (simp add: l1)
  from internal_returns [OF this, of a b 0] obtain res where
    res: "meiosis_dist_tree_internal fuel st1 a b 0 = Some res"
    unfolding search_returns_def by blast
  have bm': "b \<in> M" using bm by (simp add: M_def)
  have nb: "\<not> m_dijkstra_visited (st1 ! b)" and db: "m_dijkstra_distance (st1 ! b) = 0"
    using c1 bm' by (simp_all add: clean_def)
  have co: "\<forall>c. (None :: ref option) = Some c \<longrightarrow>
              c < length st1 \<and> m_father (st1 ! c) = Some b \<and> m_dijkstra_visited (st1 ! c) \<and> c \<noteq> a"
    by simp
  have region: "\<forall>x < length st1. \<forall>i j t. x \<noteq> b \<and> ancestor st1 j b = Some t
      \<and> ancestor st1 i x = Some t \<and> (\<forall>c. (None :: ref option) = Some c \<longrightarrow> \<not> below st1 c x)
      \<longrightarrow> clean st1 x"
  proof (intro allI impI)
    fix x i j t
    assume xv: "x < length st1"
    assume h: "x \<noteq> b \<and> ancestor st1 j b = Some t
      \<and> ancestor st1 i x = Some t \<and> (\<forall>c. (None :: ref option) = Some c \<longrightarrow> \<not> below st1 c x)"
    then have tb: "ancestor st j b = Some t" and tx: "ancestor st i x = Some t"
      by (simp_all add: anc)
    from members_up [OF clf bm' tb] have "t \<in> M" .
    from members_down [OF th clc this _ tx] xv have "x \<in> M" by (simp add: l1)
    with c1 show "clean st1 x" by blast
  qed
  have av1: "a < length st1" and bv1: "b < length st1" using av bv by (simp_all add: l1)
  from search_upD [OF search_up_all th1 av1 bv1 nb co region res]
  obtain st' r' where out: "res = Inr (st', r')" and fr: "search_frame st1 st'"
    and d1: "\<forall>i j. meet st1 a b i j
                   \<and> (\<forall>c. (None :: ref option) = Some c \<and> j = 0 \<and> 0 < i
                          \<longrightarrow> ancestor st1 (i - 1) a \<noteq> Some c) \<longrightarrow>
                 r' = m_dijkstra_distance (st1 ! b) + int i + int j"
    and d2: "(\<forall>i j. \<not> (meet st1 a b i j
                   \<and> (\<forall>c. (None :: ref option) = Some c \<and> j = 0 \<and> 0 < i
                          \<longrightarrow> ancestor st1 (i - 1) a \<noteq> Some c))) \<longrightarrow>
                 r' = 0"
    by (elim exE conjE)
  have mt: "\<And>i j. meet st1 a b i j = meet st a b i j" by (simp add: meet_def anc)
  from fr have "same_links st' st1" by (simp add: search_frame_def)
  from same_links_trans [OF this s1] have sl: "same_links st' st" .
  have e1: "\<forall>i j. meet st a b i j \<longrightarrow> r' = int i + int j"
    using d1 by (simp add: mt db)
  have e2: "(\<forall>i j. \<not> meet st a b i j) \<longrightarrow> r' = 0"
    using d2 by (simp add: mt)
  from run res out sl e1 e2 show ?thesis by simp
qed

lemma path_shape:
  "xs \<noteq> [] \<Longrightarrow> distinct xs \<Longrightarrow> successively (parent_child_edge st) xs \<Longrightarrow>
     \<exists>i j. i + j + 1 = length xs
       \<and> (\<forall>k \<le> i. ancestor st k (hd xs) = Some (xs ! k))
       \<and> (\<forall>k \<le> j. ancestor st k (last xs) = Some (xs ! (length xs - 1 - k)))"
proof (induction xs)
  case Nil
  then show ?case by simp
next
  case (Cons x ys)
  show ?case
  proof (cases ys)
    case Nil
    have "0 + 0 + 1 = length (x # ys)
       \<and> (\<forall>k \<le> (0::nat). ancestor st k (hd (x # ys)) = Some ((x # ys) ! k))
       \<and> (\<forall>k \<le> (0::nat). ancestor st k (last (x # ys))
              = Some ((x # ys) ! (length (x # ys) - 1 - k)))"
      using Nil by simp
    then show ?thesis by blast
  next
    case (Cons y zs)
    have ne: "ys \<noteq> []" using Cons by simp
    have dy: "distinct ys" and xn: "x \<notin> set ys" using Cons.prems(2) by simp_all
    have sy: "successively (parent_child_edge st) ys"
      and e: "parent_child_edge st x y"
      using Cons.prems(3) Cons by simp_all
    have hy: "hd ys = y" using Cons by simp
    from Cons.IH [OF ne dy sy] obtain i j where
      len: "i + j + 1 = length ys"
      and U: "\<forall>k \<le> i. ancestor st k y = Some (ys ! k)"
      and D: "\<forall>k \<le> j. ancestor st k (last ys) = Some (ys ! (length ys - 1 - k))"
      unfolding hy by blast
    have last: "last (x # ys) = last ys" using ne by simp
    have D': "\<forall>k \<le> j. ancestor st k (last (x # ys))
                = Some ((x # ys) ! (length (x # ys) - 1 - k))"
    proof (intro allI impI)
      fix k assume k: "k \<le> j"
      then have "length (x # ys) - 1 - k = Suc (length ys - 1 - k)" using len by simp
      then have "(x # ys) ! (length (x # ys) - 1 - k) = ys ! (length ys - 1 - k)" by simp
      with D k show "ancestor st k (last (x # ys))
                = Some ((x # ys) ! (length (x # ys) - 1 - k))"
        unfolding last by simp
    qed
    show ?thesis
    proof (cases "m_father (st ! x) = Some y")
      case True
      have U': "\<forall>k \<le> Suc i. ancestor st k (hd (x # ys)) = Some ((x # ys) ! k)"
      proof (intro allI impI)
        fix k assume k: "k \<le> Suc i"
        show "ancestor st k (hd (x # ys)) = Some ((x # ys) ! k)"
        proof (cases k)
          case 0
          then show ?thesis by simp
        next
          case (Suc k')
          with k have "k' \<le> i" by simp
          with U have "ancestor st k' y = Some (ys ! k')" by blast
          then show ?thesis unfolding Suc
            by (subst ancestor_Suc_bottom) (simp add: True)
        qed
      qed
      have "Suc i + j + 1 = length (x # ys)" using len by simp
      with U' D' show ?thesis by blast
    next
      case False
      with e have fy: "m_father (st ! y) = Some x" by (simp add: parent_child_edge_def)
      have i0: "i = 0"
      proof (rule ccontr)
        assume "i \<noteq> 0"
        then have "Suc 0 \<le> i" by simp
        with U have "ancestor st (Suc 0) y = Some (ys ! Suc 0)" by blast
        then have "ys ! Suc 0 = x" using fy by simp
        moreover have "Suc 0 < length ys" using len \<open>Suc 0 \<le> i\<close> by simp
        ultimately have "x \<in> set ys" using nth_mem by blast
        with xn show False by simp
      qed
      have j: "Suc j = length ys" using len i0 by simp
      have top: "ancestor st j (last ys) = Some y"
      proof -
        from D have "ancestor st j (last ys) = Some (ys ! (length ys - 1 - j))" by blast
        moreover have "length ys - 1 - j = 0" using j by simp
        ultimately show ?thesis using hy ne by (simp add: hd_conv_nth)
      qed
      have U': "\<forall>k \<le> (0::nat). ancestor st k (hd (x # ys)) = Some ((x # ys) ! k)" by simp
      have D'': "\<forall>k \<le> Suc j. ancestor st k (last (x # ys))
                = Some ((x # ys) ! (length (x # ys) - 1 - k))"
      proof (intro allI impI)
        fix k assume k: "k \<le> Suc j"
        show "ancestor st k (last (x # ys)) = Some ((x # ys) ! (length (x # ys) - 1 - k))"
        proof (cases "k \<le> j")
          case True
          with D' show ?thesis by blast
        next
          case False
          with k have ks: "k = Suc j" by simp
          have "ancestor st (Suc j) (last ys) = Some x" using top fy by simp
          moreover have "length (x # ys) - 1 - Suc j = 0" using j by simp
          ultimately show ?thesis unfolding ks last by simp
        qed
      qed
      have "0 + Suc j + 1 = length (x # ys)" using j by simp
      with U' D'' show ?thesis by blast
    qed
  qed
qed

lemma path_meet:
  assumes "tree_path st a b xs"
  shows "\<exists>i j. meet st a b i j \<and> int i + int j = int (length xs) - 1"
proof -
  from assms have ne: "xs \<noteq> []" and h: "hd xs = a" and l: "last xs = b"
    and d: "distinct xs" and s: "successively (parent_child_edge st) xs"
    by (simp_all add: tree_path_def)
  from path_shape [OF ne d s] obtain i j where
    len: "i + j + 1 = length xs"
    and U: "\<forall>k \<le> i. ancestor st k a = Some (xs ! k)"
    and D: "\<forall>k \<le> j. ancestor st k b = Some (xs ! (length xs - 1 - k))"
    unfolding h l by blast
  from U have ti: "ancestor st i a = Some (xs ! i)" by blast
  from D have "ancestor st j b = Some (xs ! (length xs - 1 - j))" by blast
  moreover have "length xs - 1 - j = i" using len by simp
  ultimately have tj: "ancestor st j b = Some (xs ! i)" by simp
  have br: "0 < i \<and> 0 < j \<longrightarrow> ancestor st (i - 1) a \<noteq> ancestor st (j - 1) b"
  proof
    assume p: "0 < i \<and> 0 < j"
    then have "i - 1 \<le> i" and "j - 1 \<le> j" by simp_all
    with U D have ua: "ancestor st (i - 1) a = Some (xs ! (i - 1))"
      and db: "ancestor st (j - 1) b = Some (xs ! (length xs - 1 - (j - 1)))" by blast+
    have e: "length xs - 1 - (j - 1) = Suc i" using len p by simp
    have "i - 1 < length xs" and "Suc i < length xs" and "i - 1 \<noteq> Suc i"
      using len p by simp_all
    then have "xs ! (i - 1) \<noteq> xs ! Suc i" using d by (simp add: nth_eq_iff_index_eq)
    then show "ancestor st (i - 1) a \<noteq> ancestor st (j - 1) b"
      unfolding ua db e by simp
  qed
  have "meet st a b i j" unfolding meet_def using ti tj br by simp
  moreover have "int i + int j = int (length xs) - 1" using len by simp
  ultimately show ?thesis by blast
qed

lemma meet_sym: "meet st a b i j \<Longrightarrow> meet st b a j i"
  unfolding meet_def by metis

lemma same_links_pedigrees_ok:
  assumes "same_links st' st"
  shows "pedigrees_ok peds st' = pedigrees_ok peds st"
  unfolding pedigrees_ok_def pedigree_is_set_def
  by (simp only: same_links_fields [OF assms])

lemma family_tree_heap: "tree_heap family_heap"
  by (simp add: tree_heap_def links_ok_def family_heap_def Individual_def All_less_Suc)

lemma family_pedigrees_ok: "pedigrees_ok family_pedigrees family_heap"
  by (simp add: pedigrees_ok_def family_pedigrees_def family_heap_def Individual_def
      pedigree_is_set_def All_less_Suc Ex_less_Suc)

lemma family_path: "tree_path family_heap 0 2 [0, 1, 2]"
  by (simp add: tree_path_def parent_child_edge_def family_heap_def Individual_def)

lemma family_facts:
  "length family_heap = 5"
  "pedigree_is_set (family_heap ! 0)" "pedigree_is_set (family_heap ! 1)"
  "pedigree_is_set (family_heap ! 2)" "pedigree_is_set (family_heap ! 3)"
  "\<not> pedigree_is_set (family_heap ! 4)"
  "m_pedigree_id (family_heap ! 0) = 1" "m_pedigree_id (family_heap ! 1) = 1"
  "m_pedigree_id (family_heap ! 2) = 1" "m_pedigree_id (family_heap ! 3) = 2"
  by (simp_all add: family_heap_def Individual_def pedigree_is_set_def)

text \<open>
  C5: \<open>meiosis_dist_tree\<close>, called on \<open>this\<close> with destination \<open>dest\<close>, throws
  \<open>std::invalid_argument\<close> when \<open>this\<close> has no pedigree assigned, when the destination is
  null and when the destination has no pedigree assigned; it returns \<open>-1\<close> when both have
  pedigrees assigned and the pedigree ids differ; and when they lie in the same pedigree of
  a heap whose links form a forest and whose pedigree lists are closed under father and
  children, it returns, given fuel above the size of the heap, the number of parent-child
  edges of any path from \<open>this\<close> to the destination, one less than the number of its
  Individuals.
\<close>

theorem meiosis_dist_tree_contract:
  assumes "this < length st"
  shows "(\<not> pedigree_is_set (st ! this) \<longrightarrow>
            (\<exists>msg. meiosis_dist_tree fuel peds st this dest = Some (Inl (invalid_argument msg))))
       \<and> (dest = None \<longrightarrow>
            (\<exists>msg. meiosis_dist_tree fuel peds st this dest = Some (Inl (invalid_argument msg))))
       \<and> (\<forall>d. dest = Some d \<and> d < length st \<and> \<not> pedigree_is_set (st ! d) \<longrightarrow>
            (\<exists>msg. meiosis_dist_tree fuel peds st this dest = Some (Inl (invalid_argument msg))))
       \<and> (\<forall>d. dest = Some d \<and> d < length st
               \<and> pedigree_is_set (st ! this) \<and> pedigree_is_set (st ! d)
               \<and> m_pedigree_id (st ! this) \<noteq> m_pedigree_id (st ! d) \<longrightarrow>
            meiosis_dist_tree fuel peds st this dest = Some (Inr (st, - 1)))
       \<and> (\<forall>d xs. dest = Some d \<and> d < length st
               \<and> pedigree_is_set (st ! this)
               \<and> m_pedigree_id (st ! this) = m_pedigree_id (st ! d)
               \<and> tree_heap st \<and> pedigrees_ok peds st \<and> length st < fuel
               \<and> tree_path st this d xs \<longrightarrow>
            (\<exists>st'. meiosis_dist_tree fuel peds st this dest
                      = Some (Inr (st', int (length xs) - 1))
                  \<and> same_links st' st))"
proof (intro conjI allI impI)
  assume "\<not> pedigree_is_set (st ! this)"
  then show "\<exists>msg. meiosis_dist_tree fuel peds st this dest = Some (Inl (invalid_argument msg))"
    using assms by (simp add: meiosis_dist_tree_def)
next
  assume "dest = None"
  then show "\<exists>msg. meiosis_dist_tree fuel peds st this dest = Some (Inl (invalid_argument msg))"
    using assms by (simp add: meiosis_dist_tree_def)
next
  fix d
  assume "dest = Some d \<and> d < length st \<and> \<not> pedigree_is_set (st ! d)"
  then show "\<exists>msg. meiosis_dist_tree fuel peds st this dest = Some (Inl (invalid_argument msg))"
    using assms by (simp add: meiosis_dist_tree_def)
next
  fix d
  assume "dest = Some d \<and> d < length st
               \<and> pedigree_is_set (st ! this) \<and> pedigree_is_set (st ! d)
               \<and> m_pedigree_id (st ! this) \<noteq> m_pedigree_id (st ! d)"
  then show "meiosis_dist_tree fuel peds st this dest = Some (Inr (st, - 1))"
    using assms by (simp add: meiosis_dist_tree_def)
next
  fix d xs
  assume h: "dest = Some d \<and> d < length st
               \<and> pedigree_is_set (st ! this)
               \<and> m_pedigree_id (st ! this) = m_pedigree_id (st ! d)
               \<and> tree_heap st \<and> pedigrees_ok peds st \<and> length st < fuel
               \<and> tree_path st this d xs"
  then have dest: "dest = Some d" and dv: "d < length st"
    and ps: "pedigree_is_set (st ! this)"
    and id: "m_pedigree_id (st ! this) = m_pedigree_id (st ! d)"
    and th: "tree_heap st" and po: "pedigrees_ok peds st" and fuel: "length st < fuel"
    and path: "tree_path st this d xs" by simp_all
  from meiosis_dist_tree_meet [OF th po assms dv ps id fuel] obtain st' r where
    run: "meiosis_dist_tree fuel peds st this (Some d) = Some (Inr (st', r))"
    and sl: "same_links st' st"
    and r: "\<forall>i j. meet st this d i j \<longrightarrow> r = int i + int j"
    by blast
  from path_meet [OF path] obtain i j where
    "meet st this d i j" and "int i + int j = int (length xs) - 1" by blast
  with r have "r = int (length xs) - 1" by simp
  with run sl dest
  show "\<exists>st'. meiosis_dist_tree fuel peds st this dest = Some (Inr (st', int (length xs) - 1))
                  \<and> same_links st' st" by blast
qed

theorem meiosis_dist_tree_contract_witness:
  "(\<exists>st'. meiosis_dist_tree 6 family_pedigrees family_heap 0 (Some 2) = Some (Inr (st', 2)))
   \<and> meiosis_dist_tree 6 family_pedigrees family_heap 0 (Some 3) = Some (Inr (family_heap, - 1))
   \<and> (\<exists>msg. meiosis_dist_tree 6 family_pedigrees family_heap 4 (Some 0)
              = Some (Inl (invalid_argument msg)))
   \<and> (\<exists>msg. meiosis_dist_tree 6 family_pedigrees family_heap 0 (Some 4)
              = Some (Inl (invalid_argument msg)))
   \<and> (\<exists>msg. meiosis_dist_tree 6 family_pedigrees family_heap 0 None
              = Some (Inl (invalid_argument msg)))"
proof -
  have v: "(0::nat) < length family_heap" "(4::nat) < length family_heap"
    by (simp_all add: family_facts)
  from meiosis_dist_tree_contract [OF v(1), where dest = "Some 2" and fuel = 6
        and peds = family_pedigrees]
  have "Some 2 = Some 2 \<and> 2 < length family_heap
          \<and> pedigree_is_set (family_heap ! 0)
          \<and> m_pedigree_id (family_heap ! 0) = m_pedigree_id (family_heap ! 2)
          \<and> tree_heap family_heap \<and> pedigrees_ok family_pedigrees family_heap
          \<and> length family_heap < 6
          \<and> tree_path family_heap 0 2 [0, 1, 2] \<longrightarrow>
        (\<exists>st'. meiosis_dist_tree 6 family_pedigrees family_heap 0 (Some 2)
                  = Some (Inr (st', int (length [0::nat, 1, 2]) - 1))
              \<and> same_links st' family_heap)"
    by blast
  moreover have "Some 2 = Some (2::nat) \<and> 2 < length family_heap
          \<and> pedigree_is_set (family_heap ! 0)
          \<and> m_pedigree_id (family_heap ! 0) = m_pedigree_id (family_heap ! 2)
          \<and> tree_heap family_heap \<and> pedigrees_ok family_pedigrees family_heap
          \<and> length family_heap < 6
          \<and> tree_path family_heap 0 2 [0, 1, 2]"
    using family_tree_heap family_pedigrees_ok family_path by (simp add: family_facts)
  ultimately have "\<exists>st'. meiosis_dist_tree 6 family_pedigrees family_heap 0 (Some 2)
                  = Some (Inr (st', int (length [0::nat, 1, 2]) - 1))
              \<and> same_links st' family_heap"
    by (rule mp)
  then have a: "\<exists>st'. meiosis_dist_tree 6 family_pedigrees family_heap 0 (Some 2)
           = Some (Inr (st', 2))" by auto
  have b: "meiosis_dist_tree 6 family_pedigrees family_heap 0 (Some 3)
           = Some (Inr (family_heap, - 1))"
    using meiosis_dist_tree_contract [OF v(1), where dest = "Some 3" and fuel = 6
        and peds = family_pedigrees]
    by (simp add: family_facts)
  have c: "\<exists>msg. meiosis_dist_tree 6 family_pedigrees family_heap 4 (Some 0)
              = Some (Inl (invalid_argument msg))"
    using meiosis_dist_tree_contract [OF v(2), where dest = "Some 0" and fuel = 6
        and peds = family_pedigrees]
    by (simp add: family_facts)
  have d: "\<exists>msg. meiosis_dist_tree 6 family_pedigrees family_heap 0 (Some 4)
              = Some (Inl (invalid_argument msg))"
    using meiosis_dist_tree_contract [OF v(1), where dest = "Some 4" and fuel = 6
        and peds = family_pedigrees]
    by (simp add: family_facts)
  have e: "\<exists>msg. meiosis_dist_tree 6 family_pedigrees family_heap 0 None
              = Some (Inl (invalid_argument msg))"
    using meiosis_dist_tree_contract [OF v(1), where dest = None and fuel = 6
        and peds = family_pedigrees]
    by simp
  from a b c d e show ?thesis by blast
qed

text \<open>
  C6: on such a heap, for Individuals \<open>a\<close> and \<open>b\<close> with pedigrees assigned,
  \<open>meiosis_dist_tree\<close> from \<open>a\<close> to \<open>a\<close> returns 0, and from \<open>a\<close> to \<open>b\<close> it returns
  what it returns from \<open>b\<close> to \<open>a\<close>, on the same heap and on the heap that the first call
  has left.
\<close>

theorem meiosis_dist_tree_symmetric:
  assumes th: "tree_heap st" and po: "pedigrees_ok peds st"
    and av: "a < length st" and bv: "b < length st"
    and pa: "pedigree_is_set (st ! a)" and pb: "pedigree_is_set (st ! b)"
    and fuel: "length st < fuel"
  shows "(\<exists>st'. meiosis_dist_tree fuel peds st a (Some a) = Some (Inr (st', 0)))
       \<and> (\<exists>st1 st2 st3 r.
             meiosis_dist_tree fuel peds st a (Some b) = Some (Inr (st1, r))
             \<and> meiosis_dist_tree fuel peds st b (Some a) = Some (Inr (st2, r))
             \<and> meiosis_dist_tree fuel peds st1 b (Some a) = Some (Inr (st3, r)))"
proof
  from meiosis_dist_tree_meet [OF th po av av pa refl fuel] obtain st' r where
    run: "meiosis_dist_tree fuel peds st a (Some a) = Some (Inr (st', r))"
    and r: "\<forall>i j. meet st a a i j \<longrightarrow> r = int i + int j"
    by blast
  have "meet st a a 0 0" by (simp add: meet_def)
  with r have "r = 0" by fastforce
  with run show "\<exists>st'. meiosis_dist_tree fuel peds st a (Some a) = Some (Inr (st', 0))"
    by blast
next
  show "\<exists>st1 st2 st3 r.
             meiosis_dist_tree fuel peds st a (Some b) = Some (Inr (st1, r))
             \<and> meiosis_dist_tree fuel peds st b (Some a) = Some (Inr (st2, r))
             \<and> meiosis_dist_tree fuel peds st1 b (Some a) = Some (Inr (st3, r))"
  proof (cases "m_pedigree_id (st ! a) = m_pedigree_id (st ! b)")
    case False
    then have "meiosis_dist_tree fuel peds st a (Some b) = Some (Inr (st, - 1))"
      and "meiosis_dist_tree fuel peds st b (Some a) = Some (Inr (st, - 1))"
      using av bv pa pb by (simp_all add: meiosis_dist_tree_def)
    then show ?thesis by blast
  next
    case True
    from meiosis_dist_tree_meet [OF th po av bv pa True fuel] obtain st1 r1 where
      run1: "meiosis_dist_tree fuel peds st a (Some b) = Some (Inr (st1, r1))"
      and sl: "same_links st1 st"
      and m1: "\<forall>i j. meet st a b i j \<longrightarrow> r1 = int i + int j"
      and n1: "(\<forall>i j. \<not> meet st a b i j) \<longrightarrow> r1 = 0"
      by blast
    from meiosis_dist_tree_meet [OF th po bv av pb True [symmetric] fuel] obtain st2 r2 where
      run2: "meiosis_dist_tree fuel peds st b (Some a) = Some (Inr (st2, r2))"
      and m2: "\<forall>i j. meet st b a i j \<longrightarrow> r2 = int i + int j"
      and n2: "(\<forall>i j. \<not> meet st b a i j) \<longrightarrow> r2 = 0"
      by blast
    have th1: "tree_heap st1" using th same_links_tree_heap [OF sl] by simp
    have po1: "pedigrees_ok peds st1" using po same_links_pedigrees_ok [OF sl] by simp
    have l1: "length st1 = length st" using sl by (simp add: same_links_def)
    have av1: "a < length st1" and bv1: "b < length st1" and fuel1: "length st1 < fuel"
      using av bv fuel by (simp_all add: l1)
    have pb1: "pedigree_is_set (st1 ! b)"
      using pb by (simp add: pedigree_is_set_def same_links_fields [OF sl])
    have id1: "m_pedigree_id (st1 ! b) = m_pedigree_id (st1 ! a)"
      using True by (simp add: same_links_fields [OF sl])
    have mt: "\<And>i j. meet st1 b a i j = meet st b a i j"
      by (simp add: meet_def same_links_ancestor [OF sl])
    from meiosis_dist_tree_meet [OF th1 po1 bv1 av1 pb1 id1 fuel1] obtain st3 r3 where
      run3: "meiosis_dist_tree fuel peds st1 b (Some a) = Some (Inr (st3, r3))"
      and m3: "\<forall>i j. meet st b a i j \<longrightarrow> r3 = int i + int j"
      and n3: "(\<forall>i j. \<not> meet st b a i j) \<longrightarrow> r3 = 0"
      unfolding mt by blast
    have "r2 = r1 \<and> r3 = r1"
    proof (cases "\<exists>i j. meet st a b i j")
      case True
      then obtain i j where m: "meet st a b i j" by blast
      from m1 m have "r1 = int i + int j" by blast
      moreover from m2 meet_sym [OF m] have "r2 = int j + int i" by blast
      moreover from m3 meet_sym [OF m] have "r3 = int j + int i" by blast
      ultimately show ?thesis by simp
    next
      case False
      then have "\<forall>i j. \<not> meet st b a i j" using meet_sym by blast
      with n2 n3 have "r2 = 0" "r3 = 0" by blast+
      moreover from False n1 have "r1 = 0" by blast
      ultimately show ?thesis by simp
    qed
    with run1 run2 run3 show ?thesis by blast
  qed
qed

theorem meiosis_dist_tree_symmetric_witness:
  "(\<exists>st'. meiosis_dist_tree 6 family_pedigrees family_heap 0 (Some 0) = Some (Inr (st', 0)))
   \<and> (\<exists>st1 st2 st3 r.
         meiosis_dist_tree 6 family_pedigrees family_heap 0 (Some 2) = Some (Inr (st1, r))
         \<and> meiosis_dist_tree 6 family_pedigrees family_heap 2 (Some 0) = Some (Inr (st2, r))
         \<and> meiosis_dist_tree 6 family_pedigrees st1 2 (Some 0) = Some (Inr (st3, r)))"
  using meiosis_dist_tree_symmetric [OF family_tree_heap family_pedigrees_ok,
      where a = 0 and b = 2 and fuel = 6]
  by (simp add: family_facts)

end
